theory Spec2Isabelle
  imports Main "HOL-Library.Sublist" "HOL-Library.Multiset" "HOL-Library.AList"
    "HOL-Library.Char_ord" "HOL-Library.List_Lexorder"
begin

section \<open>Strings and slash-separated paths\<close>

text \<open>
  Go strings are byte sequences; they are modelled as \<^typ>\<open>string\<close>, one \<^typ>\<open>char\<close>
  per byte. The program is modelled on a Unix host: \<^verbatim>\<open>os.PathSeparator\<close> is the slash,
  there are no volume names, and \<^verbatim>\<open>filepath.ToSlash\<close> is the identity.
\<close>

definition PathSeparator :: char where
  "PathSeparator = CHR ''/''"

definition ToSlash :: "string \<Rightarrow> string" where
  "ToSlash path = path"

text \<open>\<^verbatim>\<open>strings.HasPrefix(s, prefix)\<close>.\<close>

definition HasPrefix :: "string \<Rightarrow> string \<Rightarrow> bool" where
  "HasPrefix s pre = (take (length pre) s = pre)"

text \<open>\<^verbatim>\<open>strings.Split(s, "/")\<close>: the fields between the separators, empty ones kept.\<close>

fun split_sep :: "string \<Rightarrow> string list" where
  "split_sep [] = [[]]"
| "split_sep (c # cs) =
     (if c = CHR ''/'' then [] # split_sep cs
      else (case split_sep cs of [] \<Rightarrow> [[c]] | y # ys \<Rightarrow> (c # y) # ys))"

text \<open>\<^verbatim>\<open>strings.Join(elems, "/")\<close>.\<close>

fun join_sep :: "string list \<Rightarrow> string" where
  "join_sep [] = []"
| "join_sep [x] = x"
| "join_sep (x # y # ys) = x @ CHR ''/'' # join_sep (y # ys)"

text \<open>
  \<^verbatim>\<open>filepath.Clean\<close>, by its documented rules: runs of separators collapse, every
  \<^verbatim>\<open>.\<close> element goes, an inner \<^verbatim>\<open>..\<close> goes together with the element before it, a
  \<^verbatim>\<open>..\<close> at the start of a rooted path goes, and the empty result is \<^verbatim>\<open>.\<close>. The elements
  are pushed on a stack from left to right (\<open>clean_step\<close>), as the library's buffer does.
\<close>

definition IsAbs :: "string \<Rightarrow> bool" where
  "IsAbs path = (path \<noteq> [] \<and> hd path = CHR ''/'')"

definition clean_step :: "bool \<Rightarrow> string list \<Rightarrow> string \<Rightarrow> string list" where
  "clean_step rooted stack c =
     (if c = [] \<or> c = ''.'' then stack
      else if c = ''..'' then
        (if stack \<noteq> [] \<and> last stack \<noteq> ''..'' then butlast stack
         else if rooted then stack
         else stack @ [c])
      else stack @ [c])"

definition clean_elems :: "bool \<Rightarrow> string list \<Rightarrow> string list" where
  "clean_elems rooted cs = foldl (clean_step rooted) [] cs"

definition Clean :: "string \<Rightarrow> string" where
  "Clean path =
     (let elems = clean_elems (IsAbs path) (split_sep path) in
      if IsAbs path then CHR ''/'' # join_sep elems
      else if elems = [] then ''.''
      else join_sep elems)"

text \<open>
  \<^verbatim>\<open>filepath.Join\<close>: the empty elements are dropped, the rest joined with slashes and
  cleaned; no element at all gives the empty string.
\<close>

definition Join :: "string list \<Rightarrow> string" where
  "Join elems =
     (let es = filter (\<lambda>e. e \<noteq> []) elems in
      if es = [] then [] else Clean (join_sep es))"

text \<open>
  \<^verbatim>\<open>filepath.Base\<close>: the last element of the path, trailing slashes removed first;
  \<^verbatim>\<open>.\<close> for the empty path and \<^verbatim>\<open>/\<close> for a path of slashes only.
\<close>

definition Base :: "string \<Rightarrow> string" where
  "Base path =
     (if path = [] then ''.''
      else
        (let p = rev (dropWhile (\<lambda>c. c = CHR ''/'') (rev path));
             b = rev (takeWhile (\<lambda>c. c \<noteq> CHR ''/'') (rev p))
         in if b = [] then ''/'' else b))"

text \<open>\<^verbatim>\<open>filepath.Dir\<close>: everything up to the last slash, cleaned.\<close>

definition Dir :: "string \<Rightarrow> string" where
  "Dir path = Clean (rev (dropWhile (\<lambda>c. c \<noteq> CHR ''/'') (rev path)))"

text \<open>
  \<^verbatim>\<open>filepath.Abs\<close>: an absolute path is cleaned, any other is joined to the working
  directory. The working directory \<open>cwd\<close> is a parameter of the model (what
  \<^verbatim>\<open>os.Getwd\<close> returns, an absolute path); \<^verbatim>\<open>os.Getwd\<close> is taken to succeed.
\<close>

definition Abs :: "string \<Rightarrow> string \<Rightarrow> string" where
  "Abs cwd path = (if IsAbs path then Clean path else Join [cwd, path])"

section \<open>Shell globs: \<^verbatim>\<open>filepath.Match\<close>\<close>

text \<open>
  The matcher of the standard library, on a Unix host (the backslash escapes). A result
  is the pair of \<^verbatim>\<open>matched\<close> and \<^verbatim>\<open>err\<close>; the only error is \<^verbatim>\<open>ErrBadPattern\<close>.
  A \<^typ>\<open>char\<close> stands for one rune, which is exact on ASCII names and patterns.
\<close>

datatype glob_error = ErrBadPattern

text \<open>\<open>getEsc\<close>: one possibly escaped character of a character class.\<close>

definition getEsc :: "string \<Rightarrow> (char \<times> string) option" where
  "getEsc chunk =
     (case chunk of
        [] \<Rightarrow> None
      | c # cs \<Rightarrow>
          if c = CHR ''-'' \<or> c = CHR '']'' then None
          else if c = CHR 0x5C then
            (case cs of
               [] \<Rightarrow> None
             | r # n \<Rightarrow> if n = [] then None else Some (r, n))
          else if cs = [] then None
          else Some (c, cs))"

lemma getEsc_shorter: "getEsc chunk = Some (r, n) \<Longrightarrow> length n < length chunk"
  by (auto simp: getEsc_def split: list.splits if_splits)

text \<open>
  The ranges of a character class, after the opening bracket and the optional caret:
  \<open>r\<close> is the character of the name, \<open>m\<close> tells whether a range has matched,
  \<open>nrange\<close> counts the ranges read. The result is the flag and the rest of the chunk
  after the closing bracket.
\<close>

function class_ranges :: "char \<Rightarrow> bool \<Rightarrow> nat \<Rightarrow> string \<Rightarrow> (bool \<times> string) option" where
  "class_ranges r m nrange chunk =
     (if chunk \<noteq> [] \<and> hd chunk = CHR '']'' \<and> 0 < nrange then Some (m, tl chunk)
      else
        (case getEsc chunk of
           None \<Rightarrow> None
         | Some (lo, chunk1) \<Rightarrow>
             if hd chunk1 = CHR ''-'' then
               (case getEsc (tl chunk1) of
                  None \<Rightarrow> None
                | Some (hi, chunk2) \<Rightarrow>
                    class_ranges r
                      (m \<or> ((of_char lo :: nat) \<le> of_char r \<and> (of_char r :: nat) \<le> of_char hi))
                      (Suc nrange) chunk2)
             else class_ranges r (m \<or> lo = r) (Suc nrange) chunk1))"
  by pat_completeness auto
termination
  apply (relation "measure (\<lambda>(r, m, nrange, chunk). length chunk)")
    apply simp
   apply (auto dest!: getEsc_shorter)
  done

declare class_ranges.simps [simp del]

lemma class_ranges_shorter:
  "class_ranges r m nrange chunk = Some (m', rest) \<Longrightarrow> length rest \<le> length chunk"
proof (induction r m nrange chunk rule: class_ranges.induct)
  case (1 r m nrange chunk)
  show ?case
  proof (cases "chunk \<noteq> [] \<and> hd chunk = CHR '']'' \<and> 0 < nrange")
    case True
    with "1.prems" show ?thesis by (cases chunk) (auto simp: class_ranges.simps)
  next
    case False
    note nf = False
    from "1.prems" nf obtain lo chunk1 where g1: "getEsc chunk = Some (lo, chunk1)"
      by (subst (asm) class_ranges.simps) (auto split: option.splits)
    have l1: "length chunk1 < length chunk" using g1 by (rule getEsc_shorter)
    show ?thesis
    proof (cases "hd chunk1 = CHR ''-''")
      case True
      from "1.prems" nf g1 True obtain hi chunk2 where g2: "getEsc (tl chunk1) = Some (hi, chunk2)"
        by (subst (asm) class_ranges.simps) (auto split: option.splits)
      have l2: "length chunk2 < length (tl chunk1)" using g2 by (rule getEsc_shorter)
      from "1.prems" nf g1 True g2
      have "class_ranges r (m \<or> ((of_char lo :: nat) \<le> of_char r \<and> (of_char r :: nat) \<le> of_char hi))
              (Suc nrange) chunk2 = Some (m', rest)"
        by (subst (asm) class_ranges.simps) simp
      from "1.IH"(1)[OF nf g1 refl True g2 refl this] l1 l2
      show ?thesis by simp
    next
      case False
      from "1.prems" nf g1 False
      have "class_ranges r (m \<or> lo = r) (Suc nrange) chunk1 = Some (m', rest)"
        by (subst (asm) class_ranges.simps) simp
      from "1.IH"(2)[OF nf g1 refl False this] l1
      show ?thesis by simp
    qed
  qed
qed

text \<open>
  \<open>matchChunk\<close>: does the chunk (literals, \<^verbatim>\<open>?\<close> and classes, no star) match a
  prefix of \<open>s\<close>? The result is \<^verbatim>\<open>(rest, ok, err)\<close>. Once the match has failed the
  loop goes on reading the chunk, to report a malformed pattern, and reads \<open>s\<close> no more.
\<close>

function matchChunk_loop :: "string \<Rightarrow> string \<Rightarrow> bool \<Rightarrow> string \<times> bool \<times> glob_error option" where
  "matchChunk_loop chunk s failed0 =
     (case chunk of
        [] \<Rightarrow> if failed0 then ([], False, None) else (s, True, None)
      | c # chunk' \<Rightarrow>
          if c = CHR ''['' then
            (case class_ranges (if failed0 \<or> s = [] then CHR 0x00 else hd s) False 0
                    (if chunk' \<noteq> [] \<and> hd chunk' = CHR ''^'' then tl chunk' else chunk') of
               None \<Rightarrow> ([], False, Some ErrBadPattern)
             | Some (m, chunk2) \<Rightarrow>
                 matchChunk_loop chunk2 (if failed0 \<or> s = [] then s else tl s)
                   ((failed0 \<or> s = []) \<or> m = (chunk' \<noteq> [] \<and> hd chunk' = CHR ''^'')))
          else if c = CHR ''?'' then
            (if failed0 \<or> s = [] then matchChunk_loop chunk' s True
             else matchChunk_loop chunk' (tl s) (hd s = CHR ''/''))
          else if c = CHR 0x5C then
            (case chunk' of
               [] \<Rightarrow> ([], False, Some ErrBadPattern)
             | d # chunk'' \<Rightarrow>
                 if failed0 \<or> s = [] then matchChunk_loop chunk'' s True
                 else matchChunk_loop chunk'' (tl s) (d \<noteq> hd s))
          else
            (if failed0 \<or> s = [] then matchChunk_loop chunk' s True
             else matchChunk_loop chunk' (tl s) (c \<noteq> hd s)))"
  by pat_completeness auto
termination
  apply (relation "measure (\<lambda>(chunk, s, failed0). length chunk)")
       apply simp
      apply (auto dest!: class_ranges_shorter split: if_splits)
  done

declare matchChunk_loop.simps [simp del]

definition matchChunk :: "string \<Rightarrow> string \<Rightarrow> string \<times> bool \<times> glob_error option" where
  "matchChunk chunk s = matchChunk_loop chunk s False"

text \<open>
  \<open>scanChunk\<close>: the leading stars go (\<open>star\<close> tells whether there was one); the chunk
  runs to the next star outside a character class.
\<close>

fun scan_chunk :: "bool \<Rightarrow> string \<Rightarrow> string \<times> string" where
  "scan_chunk inrange [] = ([], [])"
| "scan_chunk inrange (c # cs) =
     (if c = CHR 0x5C then
        (case cs of
           [] \<Rightarrow> ([c], [])
         | d # ds \<Rightarrow> (case scan_chunk inrange ds of (a, b) \<Rightarrow> (c # d # a, b)))
      else if c = CHR ''['' then (case scan_chunk True cs of (a, b) \<Rightarrow> (c # a, b))
      else if c = CHR '']'' then (case scan_chunk False cs of (a, b) \<Rightarrow> (c # a, b))
      else if c = CHR ''*'' \<and> \<not> inrange then ([], c # cs)
      else (case scan_chunk inrange cs of (a, b) \<Rightarrow> (c # a, b)))"

definition scanChunk :: "string \<Rightarrow> bool \<times> string \<times> string" where
  "scanChunk pattern =
     (case scan_chunk False (dropWhile (\<lambda>c. c = CHR ''*'') pattern) of
        (chunk, rest) \<Rightarrow> (pattern \<noteq> [] \<and> hd pattern = CHR ''*'', chunk, rest))"

lemma scan_chunk_length: "scan_chunk inrange p = (a, b) \<Longrightarrow> length a + length b = length p"
  by (induction inrange p arbitrary: a b rule: scan_chunk.induct)
    (auto split: if_splits list.splits prod.splits)

lemma scan_chunk_nonempty:
  "scan_chunk False p = (a, b) \<Longrightarrow> p \<noteq> [] \<Longrightarrow> hd p \<noteq> CHR ''*'' \<Longrightarrow> a \<noteq> []"
  by (cases p) (auto split: if_splits list.splits prod.splits)

lemma scanChunk_shorter:
  assumes "scanChunk pattern = (star, chunk, rest)" and "pattern \<noteq> []"
  shows "length rest < length pattern"
proof -
  let ?p = "dropWhile (\<lambda>c. c = CHR ''*'') pattern"
  from assms(1) have sc: "scan_chunk False ?p = (chunk, rest)"
    by (auto simp: scanChunk_def split: prod.splits)
  then have len: "length chunk + length rest = length ?p"
    by (rule scan_chunk_length)
  have le: "length ?p \<le> length pattern"
    by (rule length_dropWhile_le)
  show ?thesis
  proof (cases "hd pattern = CHR ''*''")
    case True
    with assms(2) have "length ?p < length pattern"
      by (cases pattern) (auto intro: le_imp_less_Suc length_dropWhile_le)
    with len show ?thesis by simp
  next
    case False
    with assms(2) have eq: "?p = pattern" by (cases pattern) auto
    with sc assms(2) False have "chunk \<noteq> []"
      by (auto dest: scan_chunk_nonempty)
    with len eq show ?thesis by (cases chunk) auto
  qed
qed

text \<open>
  The search after a star: the chunk is tried after skipping \<open>i + 1\<close> bytes of the name,
  never across a slash. \<open>final\<close> says that the chunk is the last one, which must then
  exhaust the name.
\<close>

datatype star_result = NotFound | Found string | Bad glob_error

fun star_scan :: "string \<Rightarrow> bool \<Rightarrow> string \<Rightarrow> star_result" where
  "star_scan chunk final [] = NotFound"
| "star_scan chunk final (c # cs) =
     (if c = CHR ''/'' then NotFound
      else
        (case matchChunk chunk cs of
           (t, ok, err) \<Rightarrow>
             if ok then (if final \<and> t \<noteq> [] then star_scan chunk final cs else Found t)
             else (case err of Some e \<Rightarrow> Bad e | None \<Rightarrow> star_scan chunk final cs)))"

text \<open>Before \<^verbatim>\<open>false, nil\<close> is returned the rest of the pattern is checked for syntax.\<close>

function check_rest :: "string \<Rightarrow> bool \<times> glob_error option" where
  "check_rest pattern =
     (if pattern = [] then (False, None)
      else
        (case scanChunk pattern of
           (star, chunk, rest) \<Rightarrow>
             (case matchChunk chunk [] of
                (t, ok, err) \<Rightarrow> if err \<noteq> None then (False, err) else check_rest rest)))"
  by pat_completeness auto
termination
  apply (relation "measure length")
   apply simp
  apply (auto dest: scanChunk_shorter[OF sym])
  done

declare check_rest.simps [simp del]

function Match :: "string \<Rightarrow> string \<Rightarrow> bool \<times> glob_error option" where
  "Match pattern name =
     (if pattern = [] then (name = [], None)
      else
        (case scanChunk pattern of
           (star, chunk, rest) \<Rightarrow>
             if star \<and> chunk = [] then (CHR ''/'' \<notin> set name, None)
             else
               (case matchChunk chunk name of
                  (t, ok, err) \<Rightarrow>
                    if ok \<and> (t = [] \<or> rest \<noteq> []) then Match rest t
                    else if err \<noteq> None then (False, err)
                    else
                      (case (if star then star_scan chunk (rest = []) name else NotFound) of
                         Found t' \<Rightarrow> Match rest t'
                       | Bad e \<Rightarrow> (False, Some e)
                       | NotFound \<Rightarrow> check_rest rest))))"
  by pat_completeness auto
termination
  apply (relation "measure (\<lambda>(pattern, name). length pattern)")
    apply simp
   apply (auto dest: scanChunk_shorter[OF sym])
  done

declare Match.simps [simp del]

section \<open>The pattern matcher (\<^verbatim>\<open>ziplib/match.go\<close>)\<close>

fun matchesAny :: "string \<Rightarrow> string list \<Rightarrow> bool" where
  "matchesAny name [] = False"
| "matchesAny name (p # patterns) =
     (case Match p (Base name) of
        (matched, err) \<Rightarrow> if err = None \<and> matched then True else matchesAny name patterns)"

section \<open>The file system\<close>

text \<open>
  The disk is a tree of directories and regular files, without symbolic links and
  without access control (the process may read and write everything; the permission
  bits are stored as given, as under a zero umask). A directory lists its entries by
  name. A file carries its permission bits, its modification time and its bytes.
\<close>

datatype node =
    File nat int string
  | Directory nat "(string \<times> node) list"

fun is_dir :: "node \<Rightarrow> bool" where
  "is_dir (Directory p es) = True"
| "is_dir (File p t d) = False"

fun lookup :: "node \<Rightarrow> string list \<Rightarrow> node option" where
  "lookup n [] = Some n"
| "lookup (File p t d) (c # cs) = None"
| "lookup (Directory p es) (c # cs) =
     (case map_of es c of None \<Rightarrow> None | Some ch \<Rightarrow> lookup ch cs)"

text \<open>
  A path names the node found from the root of the disk along the elements of its
  absolute form. This is the kernel's resolution on a tree without symbolic links, as
  long as the directories that a \<^verbatim>\<open>..\<close> element steps out of exist; every path that the
  extractor hands to the system is clean, so that it has no such element after the
  working directory. The empty path names nothing (\<^verbatim>\<open>ENOENT\<close>).
\<close>

definition path_elems :: "string \<Rightarrow> string list" where
  "path_elems path = filter (\<lambda>e. e \<noteq> []) (split_sep path)"

definition locate :: "string \<Rightarrow> string \<Rightarrow> string list option" where
  "locate cwd path = (if path = [] then None else Some (path_elems (Abs cwd path)))"

text \<open>\<^verbatim>\<open>os.Stat\<close> (and \<^verbatim>\<open>os.Lstat\<close>, the same without links): the node, or an error.\<close>

definition Stat :: "string \<Rightarrow> string \<Rightarrow> node \<Rightarrow> node option" where
  "Stat cwd path disk = (case locate cwd path of None \<Rightarrow> None | Some cs \<Rightarrow> lookup disk cs)"

text \<open>\<^verbatim>\<open>os.Open\<close> and reading to the end: the bytes of a regular file.\<close>

definition ReadFile :: "string \<Rightarrow> string \<Rightarrow> node \<Rightarrow> string option" where
  "ReadFile cwd path disk =
     (case Stat cwd path disk of Some (File p t d) \<Rightarrow> Some d | _ \<Rightarrow> None)"

text \<open>
  \<^verbatim>\<open>os.MkdirAll\<close>: the directory and every missing parent is created with \<open>perm\<close>; an
  existing directory is left as it is; a regular file on the way is an error, and then
  nothing is created.
\<close>

fun mkdir_all :: "nat \<Rightarrow> string list \<Rightarrow> node \<Rightarrow> node option" where
  "mkdir_all perm cs (File p t d) = None"
| "mkdir_all perm [] (Directory p es) = Some (Directory p es)"
| "mkdir_all perm (c # cs) (Directory p es) =
     (case mkdir_all perm cs (case map_of es c of None \<Rightarrow> Directory perm [] | Some ch \<Rightarrow> ch) of
        None \<Rightarrow> None
      | Some ch' \<Rightarrow> Some (Directory p (AList.update c ch' es)))"

definition MkdirAll :: "string \<Rightarrow> string \<Rightarrow> nat \<Rightarrow> node \<Rightarrow> node option" where
  "MkdirAll cwd path perm disk =
     (case locate cwd path of None \<Rightarrow> None | Some cs \<Rightarrow> mkdir_all perm cs disk)"

text \<open>
  \<^verbatim>\<open>os.OpenFile(path, O_CREATE|O_WRONLY|O_TRUNC, perm)\<close>, the bytes written, and the
  file closed: a missing file is created with \<open>perm\<close>, an existing regular file keeps its
  permission bits and gets the new bytes; a directory at the path, or a missing parent,
  is an error. The model has no clock: the time of the written file is left to the
  \<^verbatim>\<open>os.Chtimes\<close> that follows (a new file starts at time 0).
\<close>

fun put_file :: "nat \<Rightarrow> string \<Rightarrow> string list \<Rightarrow> node \<Rightarrow> node option" where
  "put_file perm bytes [] n = None"
| "put_file perm bytes (c # cs) (File p t d) = None"
| "put_file perm bytes [c] (Directory p es) =
     (case map_of es c of
        None \<Rightarrow> Some (Directory p (AList.update c (File perm 0 bytes) es))
      | Some (File q t d) \<Rightarrow> Some (Directory p (AList.update c (File q t bytes) es))
      | Some (Directory q es') \<Rightarrow> None)"
| "put_file perm bytes (c # c' # cs) (Directory p es) =
     (case map_of es c of
        None \<Rightarrow> None
      | Some ch \<Rightarrow>
          (case put_file perm bytes (c' # cs) ch of
             None \<Rightarrow> None
           | Some ch' \<Rightarrow> Some (Directory p (AList.update c ch' es))))"

definition WriteFile :: "string \<Rightarrow> string \<Rightarrow> nat \<Rightarrow> string \<Rightarrow> node \<Rightarrow> node option" where
  "WriteFile cwd path perm bytes disk =
     (case locate cwd path of None \<Rightarrow> None | Some cs \<Rightarrow> put_file perm bytes cs disk)"

text \<open>\<^verbatim>\<open>os.Chtimes\<close>: the time of an existing file is set (directories carry no time here).\<close>

fun chtimes :: "int \<Rightarrow> string list \<Rightarrow> node \<Rightarrow> node option" where
  "chtimes t [] (File p t0 d) = Some (File p t d)"
| "chtimes t [] (Directory p es) = Some (Directory p es)"
| "chtimes t (c # cs) (File p t0 d) = None"
| "chtimes t (c # cs) (Directory p es) =
     (case map_of es c of
        None \<Rightarrow> None
      | Some ch \<Rightarrow>
          (case chtimes t cs ch of
             None \<Rightarrow> None
           | Some ch' \<Rightarrow> Some (Directory p (AList.update c ch' es))))"

definition Chtimes :: "string \<Rightarrow> string \<Rightarrow> int \<Rightarrow> node \<Rightarrow> node option" where
  "Chtimes cwd path t disk =
     (case locate cwd path of None \<Rightarrow> None | Some cs \<Rightarrow> chtimes t cs disk)"

text \<open>
  What the program acts on: the disk and the lines received by the status sink
  (\<^verbatim>\<open>opts.Output\<close>, or \<^verbatim>\<open>io.Discard\<close> when that is nil).
\<close>

record world =
  w_disk :: node
  w_sink :: "string list"

section \<open>Archives\<close>

text \<open>
  The archive codec is a collaborator of the program. An archive is the list of its
  entries, as \<^verbatim>\<open>zip.Reader.File\<close> presents them: the header fields that the program
  reads, and what opening and copying the content gives (\<open>BadOpen\<close>: \<^verbatim>\<open>f.Open\<close> fails;
  \<open>BadCopy\<close>: the copy fails after the given bytes). The byte form of an archive is
  given by two parameters of the model, \<open>enc\<close> for the writer and \<open>dec\<close> for the reader
  (\<open>None\<close>: not an archive).
\<close>

datatype compression = Store | Deflate

datatype payload = Content string | BadOpen | BadCopy string

record zfile =
  f_Name :: string
  f_IsDir :: bool
  f_Mode :: nat
  f_Modified :: int
  f_Method :: compression
  f_UncompressedSize64 :: nat
  f_CompressedSize64 :: nat
  f_Payload :: payload

definition OpenReader :: "(string \<Rightarrow> zfile list option) \<Rightarrow> string \<Rightarrow> string \<Rightarrow> node \<Rightarrow> zfile list option" where
  "OpenReader dec cwd zipPath disk =
     (case ReadFile cwd zipPath disk of None \<Rightarrow> None | Some bytes \<Rightarrow> dec bytes)"

section \<open>Options and errors (\<^verbatim>\<open>ziplib/options.go\<close>)\<close>

record ZipOptions =
  Recursive :: bool
  CompressionLevel :: int
  ExcludePatterns :: "string list"

record UnzipOptions =
  OutputDir :: string
  Overwrite :: bool
  JunkPaths :: bool
  FilePatterns :: "string list"

record ListEntry =
  Name :: string
  UncompressedSize :: nat
  CompressedSize :: nat
  Modified :: int
  IsDir :: bool

text \<open>One constructor for each error that the library builds, with the path or name it shows.\<close>

datatype error =
    ErrCreatingArchive
  | ErrStat string
  | ErrCreateHeader string
  | ErrOpen string
  | ErrWrite string
  | ErrOpenArchive
  | ErrIllegalFilePath string
  | ErrMkdir string
  | ErrFileExists string
  | ErrMkdirFor string
  | ErrOpenEntry string
  | ErrCreate string
  | ErrExtract string
  | ErrChtimes string

definition nl :: string where
  "nl = [CHR 0x0A]"

section \<open>Extraction (\<^verbatim>\<open>ziplib/ziplib.go\<close>: \<^verbatim>\<open>extractFile\<close>, \<^verbatim>\<open>Unzip\<close>, \<^verbatim>\<open>List\<close>)\<close>

definition extractFile :: "string \<Rightarrow> zfile \<Rightarrow> string \<Rightarrow> bool \<Rightarrow> world \<Rightarrow> error option \<times> world" where
  "extractFile cwd f destPath overwrite w =
     (if \<not> overwrite \<and> Stat cwd destPath (w_disk w) \<noteq> None then (Some (ErrFileExists destPath), w)
      else
        (case MkdirAll cwd (Dir destPath) 493 (w_disk w) of
           None \<Rightarrow> (Some (ErrMkdirFor destPath), w)
         | Some d1 \<Rightarrow>
             (case f_Payload f of
                BadOpen \<Rightarrow> (Some (ErrOpenEntry (f_Name f)), w\<lparr>w_disk := d1\<rparr>)
              | BadCopy part \<Rightarrow>
                  (case WriteFile cwd destPath (f_Mode f) part d1 of
                     None \<Rightarrow> (Some (ErrCreate destPath), w\<lparr>w_disk := d1\<rparr>)
                   | Some d2 \<Rightarrow> (Some (ErrExtract (f_Name f)), w\<lparr>w_disk := d2\<rparr>))
              | Content bytes \<Rightarrow>
                  (case WriteFile cwd destPath (f_Mode f) bytes d1 of
                     None \<Rightarrow> (Some (ErrCreate destPath), w\<lparr>w_disk := d1\<rparr>)
                   | Some d2 \<Rightarrow>
                       (None, \<lparr>w_disk = d2, w_sink = w_sink w @ [''  inflating: '' @ destPath @ nl]\<rparr>)))))"

text \<open>The body of the loop of \<^verbatim>\<open>Unzip\<close>, for one entry.\<close>

definition unzip_entry ::
  "string \<Rightarrow> UnzipOptions \<Rightarrow> string \<Rightarrow> string \<Rightarrow> zfile \<Rightarrow> world \<Rightarrow> error option \<times> world" where
  "unzip_entry cwd opts outputDir absOutputDir f w =
     (if FilePatterns opts \<noteq> [] \<and> \<not> matchesAny (f_Name f) (FilePatterns opts) then (None, w)
      else
        (let name = (if JunkPaths opts then Base (f_Name f) else f_Name f);
             destPath = Join [outputDir, name];
             absDest = Abs cwd destPath
         in
           if \<not> HasPrefix absDest (absOutputDir @ [PathSeparator]) \<and> absDest \<noteq> absOutputDir
           then (Some (ErrIllegalFilePath (f_Name f)), w)
           else if f_IsDir f then
             (case MkdirAll cwd destPath (f_Mode f) (w_disk w) of
                None \<Rightarrow> (Some (ErrMkdir destPath), w)
              | Some d \<Rightarrow> (None, w\<lparr>w_disk := d\<rparr>))
           else
             (case extractFile cwd f destPath (Overwrite opts) w of
                (Some e, w') \<Rightarrow> (Some e, w')
              | (None, w') \<Rightarrow>
                  (case Chtimes cwd destPath (f_Modified f) (w_disk w') of
                     None \<Rightarrow> (Some (ErrChtimes destPath), w')
                   | Some d \<Rightarrow> (None, w'\<lparr>w_disk := d\<rparr>)))))"

fun unzip_loop ::
  "string \<Rightarrow> UnzipOptions \<Rightarrow> string \<Rightarrow> string \<Rightarrow> zfile list \<Rightarrow> world \<Rightarrow> error option \<times> world" where
  "unzip_loop cwd opts outputDir absOutputDir [] w = (None, w)"
| "unzip_loop cwd opts outputDir absOutputDir (f # fs) w =
     (case unzip_entry cwd opts outputDir absOutputDir f w of
        (Some e, w') \<Rightarrow> (Some e, w')
      | (None, w') \<Rightarrow> unzip_loop cwd opts outputDir absOutputDir fs w')"

definition Unzip ::
  "(string \<Rightarrow> zfile list option) \<Rightarrow> string \<Rightarrow> string \<Rightarrow> UnzipOptions \<Rightarrow> world \<Rightarrow> error option \<times> world" where
  "Unzip dec cwd zipPath opts w =
     (let outputDir = (if OutputDir opts = [] then ''.'' else OutputDir opts);
          absOutputDir = Abs cwd outputDir
      in
        (case OpenReader dec cwd zipPath (w_disk w) of
           None \<Rightarrow> (Some ErrOpenArchive, w)
         | Some files \<Rightarrow> unzip_loop cwd opts outputDir absOutputDir files w))"

definition List ::
  "(string \<Rightarrow> zfile list option) \<Rightarrow> string \<Rightarrow> string \<Rightarrow> world \<Rightarrow> (error + ListEntry list) \<times> world" where
  "List dec cwd zipPath w =
     (case OpenReader dec cwd zipPath (w_disk w) of
        None \<Rightarrow> (Inl ErrOpenArchive, w)
      | Some files \<Rightarrow>
          (Inr (map (\<lambda>f. \<lparr>Name = f_Name f, UncompressedSize = f_UncompressedSize64 f,
                          CompressedSize = f_CompressedSize64 f, Modified = f_Modified f,
                          IsDir = f_IsDir f\<rparr>) files), w))"

section \<open>Archiving (\<^verbatim>\<open>ziplib/ziplib.go\<close>: \<^verbatim>\<open>Zip\<close>, \<^verbatim>\<open>addToZip\<close>, \<^verbatim>\<open>writeFileToZip\<close>)\<close>

text \<open>
  The state of the archive writer while \<^verbatim>\<open>Zip\<close> runs: the level of the compressor
  registered for the deflate method, the entries written so far, and the lines sent to
  the status sink. The compressor is a parameter \<open>flate\<close> of the model
  (\<^verbatim>\<open>flate.NewWriter(out, level)\<close>: the bytes stored for the given level and content).
\<close>

record zip_state =
  z_level :: int
  z_files :: "zfile list"
  z_sink :: "string list"

text \<open>
  \<^verbatim>\<open>writeFileToZip\<close>. The header takes the permission bits and the time of \<open>info\<close>;
  \<^verbatim>\<open>w.CreateHeader\<close> refuses a name longer than 65535 bytes; the entry is in the archive
  from \<^verbatim>\<open>w.CreateHeader\<close> on, also when the file cannot be opened or read afterwards.
\<close>

definition entry_of :: "(int \<Rightarrow> string \<Rightarrow> string) \<Rightarrow> zip_state \<Rightarrow> string \<Rightarrow> node \<Rightarrow> compression \<Rightarrow> string \<Rightarrow> zfile" where
  "entry_of flate st name info meth bytes =
     \<lparr>f_Name = name, f_IsDir = is_dir info,
      f_Mode = (case info of File p t d \<Rightarrow> p | Directory p es \<Rightarrow> p),
      f_Modified = (case info of File p t d \<Rightarrow> t | Directory p es \<Rightarrow> 0),
      f_Method = meth,
      f_UncompressedSize64 = length bytes,
      f_CompressedSize64 = length (case meth of Store \<Rightarrow> bytes | Deflate \<Rightarrow> flate (z_level st) bytes),
      f_Payload = Content bytes\<rparr>"

definition writeFileToZip ::
  "(int \<Rightarrow> string \<Rightarrow> string) \<Rightarrow> string \<Rightarrow> node \<Rightarrow> string \<Rightarrow> node \<Rightarrow> ZipOptions \<Rightarrow> zip_state
     \<Rightarrow> error option \<times> zip_state" where
  "writeFileToZip flate cwd disk path info opts st =
     (let name = ToSlash path;
          meth = (if CompressionLevel opts = 0 then Store else Deflate)
      in
        if 65535 < int (length name) then (Some (ErrCreateHeader path), st)
        else
          (case Stat cwd path disk of
             None \<Rightarrow>
               (Some (ErrOpen path),
                st\<lparr>z_files := z_files st @ [entry_of flate st name info meth []]\<rparr>)
           | Some (Directory p es) \<Rightarrow>
               (Some (ErrWrite path),
                st\<lparr>z_files := z_files st @ [entry_of flate st name info meth []]\<rparr>)
           | Some (File p t bytes) \<Rightarrow>
               (None,
                st\<lparr>z_files := z_files st @ [entry_of flate st name info meth bytes],
                   z_sink := z_sink st @ [''  adding: '' @ path @ nl]\<rparr>)))"

text \<open>
  \<^verbatim>\<open>filepath.Walk\<close>: the function is called on the root and then, for a directory, on
  its entries in the order of their names, each under the joined path. The function may
  answer \<^verbatim>\<open>filepath.SkipDir\<close>: on a directory this skips its entries, on a file the rest
  of the directory that holds it. On this disk \<^verbatim>\<open>os.Lstat\<close> and the reading of a
  directory do not fail, so that the function is always called with a nil error.
\<close>

lemma size_list_sort_key: "size_list f (sort_key k xs) = size_list f xs"
proof -
  have "sum_list (map f (sort_key k xs)) = sum_mset (image_mset f (mset (sort_key k xs)))"
    by (metis mset_map sum_mset_sum_list)
  also have "\<dots> = sum_list (map f xs)"
    by (simp add: sum_mset_sum_list[symmetric] del: sum_mset_sum_list)
  finally show ?thesis
    by (simp add: size_list_conv_sum_list)
qed

datatype walk_error = SkipDir | WalkErr error

function (sequential)
  walk :: "(string \<Rightarrow> node \<Rightarrow> error option \<Rightarrow> 's \<Rightarrow> walk_error option \<times> 's) \<Rightarrow> string \<Rightarrow> node \<Rightarrow> 's
             \<Rightarrow> walk_error option \<times> 's"
  and walk_names :: "(string \<Rightarrow> node \<Rightarrow> error option \<Rightarrow> 's \<Rightarrow> walk_error option \<times> 's) \<Rightarrow> string
             \<Rightarrow> (string \<times> node) list \<Rightarrow> 's \<Rightarrow> walk_error option \<times> 's"
where
  "walk walkFn path (File p t d) st = walkFn path (File p t d) None st"
| "walk walkFn path (Directory p es) st =
     (case walkFn path (Directory p es) None st of
        (Some e, st') \<Rightarrow> (Some e, st')
      | (None, st') \<Rightarrow> walk_names walkFn path (sort_key fst es) st')"
| "walk_names walkFn path [] st = (None, st)"
| "walk_names walkFn path ((name, child) # rest) st =
     (case walk walkFn (Join [path, name]) child st of
        (Some e, st') \<Rightarrow>
          if \<not> is_dir child \<or> e \<noteq> SkipDir then (Some e, st')
          else walk_names walkFn path rest st'
      | (None, st') \<Rightarrow> walk_names walkFn path rest st')"
  by pat_completeness auto

termination
  apply (relation "measure (\<lambda>x. case x of
            Inl (fn, path, n, st) \<Rightarrow> 2 * size n
          | Inr (fn, path, es, st) \<Rightarrow> 2 * size_list (size_prod (\<lambda>x. 0) size) es + 1)")
      apply (simp_all add: size_list_sort_key)
  done

definition Walk :: "string \<Rightarrow> node \<Rightarrow> (string \<Rightarrow> node \<Rightarrow> error option \<Rightarrow> 's \<Rightarrow> walk_error option \<times> 's) \<Rightarrow> 's
    \<Rightarrow> error option \<times> 's" where
  "Walk root info walkFn st =
     (case walk walkFn root info st of
        (None, st') \<Rightarrow> (None, st')
      | (Some SkipDir, st') \<Rightarrow> (None, st')
      | (Some (WalkErr e), st') \<Rightarrow> (Some e, st'))"

text \<open>The function literal that \<^verbatim>\<open>addToZip\<close> hands to \<^verbatim>\<open>filepath.Walk\<close>.\<close>

definition addToZip_walkFn ::
  "(int \<Rightarrow> string \<Rightarrow> string) \<Rightarrow> string \<Rightarrow> node \<Rightarrow> ZipOptions \<Rightarrow> string \<Rightarrow> node \<Rightarrow> error option \<Rightarrow> zip_state
     \<Rightarrow> walk_error option \<times> zip_state" where
  "addToZip_walkFn flate cwd disk opts p fi err st =
     (case err of
        Some e \<Rightarrow> (Some (WalkErr e), st)
      | None \<Rightarrow>
          if matchesAny p (ExcludePatterns opts) then
            (if is_dir fi then (Some SkipDir, st) else (None, st))
          else if is_dir fi then (None, st)
          else
            (case writeFileToZip flate cwd disk p fi opts st of
               (None, st') \<Rightarrow> (None, st')
             | (Some e, st') \<Rightarrow> (Some (WalkErr e), st')))"

definition addToZip ::
  "(int \<Rightarrow> string \<Rightarrow> string) \<Rightarrow> string \<Rightarrow> node \<Rightarrow> string \<Rightarrow> ZipOptions \<Rightarrow> zip_state
     \<Rightarrow> error option \<times> zip_state" where
  "addToZip flate cwd disk path opts st =
     (case Stat cwd path disk of
        None \<Rightarrow> (Some (ErrStat path), st)
      | Some info \<Rightarrow>
          if is_dir info then
            (if \<not> Recursive opts then
               (None, st\<lparr>z_sink := z_sink st @ [''  adding: '' @ path @ ''/ (skipped, not recursive)'' @ nl]\<rparr>)
             else Walk path info (addToZip_walkFn flate cwd disk opts) st)
          else if matchesAny path (ExcludePatterns opts) then (None, st)
          else writeFileToZip flate cwd disk path info opts st)"

fun zip_loop ::
  "(int \<Rightarrow> string \<Rightarrow> string) \<Rightarrow> string \<Rightarrow> node \<Rightarrow> string list \<Rightarrow> ZipOptions \<Rightarrow> zip_state
     \<Rightarrow> error option \<times> zip_state" where
  "zip_loop flate cwd disk [] opts st = (None, st)"
| "zip_loop flate cwd disk (name # files) opts st =
     (case addToZip flate cwd disk name opts st of
        (Some e, st') \<Rightarrow> (Some e, st')
      | (None, st') \<Rightarrow> zip_loop flate cwd disk files opts st')"

text \<open>
  \<^verbatim>\<open>Zip\<close>. The archive file is created (or truncated) first, so that the sources are
  read from a disk that already holds it, empty. The deferred \<^verbatim>\<open>w.Close\<close> and
  \<^verbatim>\<open>f.Close\<close> run on every return after that: the file then holds the entries written
  so far, also when an error is returned.
\<close>

definition Zip ::
  "(zfile list \<Rightarrow> string) \<Rightarrow> (int \<Rightarrow> string \<Rightarrow> string) \<Rightarrow> string \<Rightarrow> string \<Rightarrow> string list \<Rightarrow> ZipOptions
     \<Rightarrow> world \<Rightarrow> error option \<times> world" where
  "Zip enc flate cwd zipPath files opts w =
     (case WriteFile cwd zipPath 438 [] (w_disk w) of
        None \<Rightarrow> (Some ErrCreatingArchive, w)
      | Some d1 \<Rightarrow>
          (let level = (if CompressionLevel opts < - 1 \<or> 9 < CompressionLevel opts then - 1
                        else CompressionLevel opts);
               st0 = \<lparr>z_level = level, z_files = [], z_sink = w_sink w\<rparr>
           in
             (case zip_loop flate cwd d1 files opts st0 of
                (err, st) \<Rightarrow>
                  (err,
                   \<lparr>w_disk = (case WriteFile cwd zipPath 438 (enc (z_files st)) d1 of
                                None \<Rightarrow> d1 | Some d2 \<Rightarrow> d2),
                    w_sink = z_sink st\<rparr>))))"

section \<open>Observing the disk\<close>

text \<open>
  Properties of the disk are stated through what \<^verbatim>\<open>os.Stat\<close> and a read show of a
  node: for a file its permission bits, time and bytes, for a directory its permission
  bits. \<open>stat_at\<close> observes the node at a list of path elements.
\<close>

datatype attr = AFile nat int string | ADir nat

fun attr_of :: "node \<Rightarrow> attr" where
  "attr_of (File p t d) = AFile p t d"
| "attr_of (Directory p es) = ADir p"

definition stat_at :: "node \<Rightarrow> string list \<Rightarrow> attr option" where
  "stat_at n cs = map_option attr_of (lookup n cs)"

section \<open>Auxiliary notions for the archive writer\<close>

text \<open>
  \<open>grows P st st'\<close>: from \<open>st\<close> to \<open>st'\<close> the writer keeps its level and only appends
  entries, each with the property \<open>P\<close>.
\<close>

definition grows :: "(zfile \<Rightarrow> bool) \<Rightarrow> zip_state \<Rightarrow> zip_state \<Rightarrow> bool" where
  "grows P st st' \<longleftrightarrow>
     z_level st' = z_level st \<and> (\<exists>new. z_files st' = z_files st @ new \<and> (\<forall>f \<in> set new. P f))"

text \<open>
  The method and the stored size that the claim on compression asks of an entry, for the
  level \<open>level\<close> of the registered compressor.
\<close>

definition level_ok :: "(int \<Rightarrow> string \<Rightarrow> string) \<Rightarrow> ZipOptions \<Rightarrow> int \<Rightarrow> zfile \<Rightarrow> bool" where
  "level_ok flate opts level f \<longleftrightarrow>
     (\<exists>bytes. f_Payload f = Content bytes \<and>
        (if CompressionLevel opts = 0
         then f_Method f = Store \<and> f_CompressedSize64 f = length bytes
         else f_Method f = Deflate \<and> f_CompressedSize64 f = length (flate level bytes)))"

definition level_inv :: "(int \<Rightarrow> string \<Rightarrow> string) \<Rightarrow> ZipOptions \<Rightarrow> int \<Rightarrow> zip_state \<Rightarrow> zip_state \<Rightarrow> bool" where
  "level_inv flate opts l st st' \<longleftrightarrow> (z_level st = l \<longrightarrow> grows (level_ok flate opts l) st st')"

section \<open>Sample data\<close>

text \<open>A small disk, a codec and a compressor, on which the theorems are instantiated.\<close>

definition demo_disk :: node where
  "demo_disk =
     Directory 493
       [(''src'', Directory 493
           [(''foo.go'', File 420 6 ''package foo''),
            (''hello.txt'', File 420 5 ''hello world''),
            (''sub'', Directory 493 [(''nested.txt'', File 420 7 ''nested content'')])]),
        (''tmp'', Directory 493 [])]"

definition demo_world :: world where
  "demo_world = \<lparr>w_disk = demo_disk, w_sink = []\<rparr>"

definition demo_flate :: "int \<Rightarrow> string \<Rightarrow> string" where
  "demo_flate level bytes = (if level = 0 then bytes else take (length bytes div 2) bytes)"

definition demo_enc :: "zfile list \<Rightarrow> string" where
  "demo_enc fs = concat (map (\<lambda>f. f_Name f @ ''='' @ (case f_Payload f of Content b \<Rightarrow> b | _ \<Rightarrow> []) @ '';'') fs)"

definition demo_archive :: "zfile list" where
  "demo_archive =
     [\<lparr>f_Name = ''a/'', f_IsDir = True, f_Mode = 448, f_Modified = 1, f_Method = Store,
        f_UncompressedSize64 = 0, f_CompressedSize64 = 0, f_Payload = Content []\<rparr>,
      \<lparr>f_Name = ''a/x.txt'', f_IsDir = False, f_Mode = 384, f_Modified = 2, f_Method = Store,
        f_UncompressedSize64 = 2, f_CompressedSize64 = 2, f_Payload = Content ''hi''\<rparr>,
      \<lparr>f_Name = ''b/c/y.txt'', f_IsDir = False, f_Mode = 384, f_Modified = 3, f_Method = Deflate,
        f_UncompressedSize64 = 2, f_CompressedSize64 = 1, f_Payload = Content ''yo''\<rparr>]"

definition demo_dec :: "string \<Rightarrow> zfile list option" where
  "demo_dec bytes = (if bytes = ''PK'' then Some demo_archive else None)"

definition demo_zworld :: world where
  "demo_zworld =
     \<lparr>w_disk = Directory 493 [(''tmp'', Directory 493 [(''a.zip'', File 420 0 ''PK'')])], w_sink = []\<rparr>"

section \<open>The recursive traversal, as the specification words it\<close>

text \<open>
  The entry names that the specification asks of a recursive traversal, written from its
  words and not from the code: the exclusion patterns are tested at each visited path; a
  directory that matches is skipped with its whole subtree; a file that matches is
  skipped; a regular file that is not excluded is listed under its path; a directory is
  never listed itself, only walked, its entries in the order of their names.
\<close>

function (sequential)
  spec_walk :: "string list \<Rightarrow> string \<Rightarrow> node \<Rightarrow> string list"
  and spec_walk_names :: "string list \<Rightarrow> string \<Rightarrow> (string \<times> node) list \<Rightarrow> string list"
where
  "spec_walk pats path (File p t d) = (if matchesAny path pats then [] else [path])"
| "spec_walk pats path (Directory p es) =
     (if matchesAny path pats then [] else spec_walk_names pats path (sort_key fst es))"
| "spec_walk_names pats path [] = []"
| "spec_walk_names pats path ((name, child) # rest) =
     spec_walk pats (Join [path, name]) child @ spec_walk_names pats path rest"
  by pat_completeness auto
termination
  apply (relation "measure (\<lambda>x. case x of
            Inl (pats, path, n) \<Rightarrow> 2 * size n
          | Inr (pats, path, es) \<Rightarrow> 2 * size_list (size_prod (\<lambda>x. 0) size) es + 1)")
      apply (simp_all add: size_list_sort_key)
  done

text \<open>
  \<open>walked expected r st st'\<close>: from \<open>st\<close> to \<open>st'\<close> the writer has appended entries for
  files only; their names are the expected ones when the walk went through, a prefix of
  them when it stopped on an error, and none when the directory was skipped.
\<close>

definition walked :: "string list \<Rightarrow> walk_error option \<Rightarrow> zip_state \<Rightarrow> zip_state \<Rightarrow> bool" where
  "walked expected r st st' \<longleftrightarrow>
     (\<exists>new. z_files st' = z_files st @ new \<and> (\<forall>f \<in> set new. \<not> f_IsDir f) \<and>
        (case r of
           None \<Rightarrow> map f_Name new = map ToSlash expected
         | Some SkipDir \<Rightarrow> new = [] \<and> expected = []
         | Some (WalkErr e) \<Rightarrow> prefix (map f_Name new) (map ToSlash expected)))"

section \<open>Auxiliary notions for the extractor\<close>

text \<open>
  What stands at a place of the disk: a regular file, or a directory. \<open>extends d d'\<close>:
  every file of \<open>d\<close> is a file of \<open>d'\<close> and every directory of \<open>d\<close> a directory of \<open>d'\<close>
  (nothing is removed, and nothing changes its kind).
\<close>

definition is_file_at :: "node \<Rightarrow> string list \<Rightarrow> bool" where
  "is_file_at d cs \<longleftrightarrow> (\<exists>p t b. stat_at d cs = Some (AFile p t b))"

definition is_dir_at :: "node \<Rightarrow> string list \<Rightarrow> bool" where
  "is_dir_at d cs \<longleftrightarrow> (\<exists>p. stat_at d cs = Some (ADir p))"

definition extends :: "node \<Rightarrow> node \<Rightarrow> bool" where
  "extends d d' \<longleftrightarrow>
     (\<forall>cs. (is_file_at d cs \<longrightarrow> is_file_at d' cs) \<and> (is_dir_at d cs \<longrightarrow> is_dir_at d' cs))"

text \<open>
  Names for three expressions of the loop of \<^verbatim>\<open>Unzip\<close>: the test that skips an entry
  (line 138), the destination path of an entry (lines 142 to 147), and the path-traversal
  test on the resolved destination (line 154, as the condition under which extraction
  goes on).
\<close>

definition entry_skipped :: "UnzipOptions \<Rightarrow> zfile \<Rightarrow> bool" where
  "entry_skipped opts f \<longleftrightarrow> FilePatterns opts \<noteq> [] \<and> \<not> matchesAny (f_Name f) (FilePatterns opts)"

definition entry_dest :: "UnzipOptions \<Rightarrow> string \<Rightarrow> zfile \<Rightarrow> string" where
  "entry_dest opts outputDir f = Join [outputDir, if JunkPaths opts then Base (f_Name f) else f_Name f]"

definition inside_root :: "string \<Rightarrow> string \<Rightarrow> string \<Rightarrow> bool" where
  "inside_root cwd absOutputDir destPath \<longleftrightarrow>
     HasPrefix (Abs cwd destPath) (absOutputDir @ [PathSeparator]) \<or> Abs cwd destPath = absOutputDir"

text \<open>
  \<open>entry_done\<close>: the disk shows the entry as extracted. A skipped entry asks nothing; a
  directory entry has its directory at the destination; a file entry has a readable
  content, a regular file at the destination, and a directory at the parent path that
  \<^verbatim>\<open>extractFile\<close> creates.
\<close>

definition entry_done :: "string \<Rightarrow> UnzipOptions \<Rightarrow> string \<Rightarrow> string \<Rightarrow> zfile \<Rightarrow> node \<Rightarrow> bool" where
  "entry_done cwd opts outputDir absOutputDir f d \<longleftrightarrow>
     entry_skipped opts f \<or>
     (inside_root cwd absOutputDir (entry_dest opts outputDir f) \<and>
      (\<exists>ls. locate cwd (entry_dest opts outputDir f) = Some ls \<and>
         (if f_IsDir f then is_dir_at d ls
          else (\<exists>bytes. f_Payload f = Content bytes) \<and> is_file_at d ls \<and>
               (\<exists>ps. locate cwd (Dir (entry_dest opts outputDir f)) = Some ps \<and> is_dir_at d ps))))"

section \<open>Auxiliary notions for a run of \<^verbatim>\<open>Zip\<close>\<close>

text \<open>
  \<open>zip_disk\<close> is the disk that the sources are read from (the archive file is there,
  empty), \<open>zip_written\<close> is the list of entries that the run has written when it
  returns: the list that the archive file then holds, encoded.
\<close>

definition zip_disk :: "string \<Rightarrow> string \<Rightarrow> world \<Rightarrow> node" where
  "zip_disk cwd zipPath w =
     (case WriteFile cwd zipPath 438 [] (w_disk w) of None \<Rightarrow> w_disk w | Some d1 \<Rightarrow> d1)"

definition zip_written ::
  "(int \<Rightarrow> string \<Rightarrow> string) \<Rightarrow> string \<Rightarrow> string \<Rightarrow> string list \<Rightarrow> ZipOptions \<Rightarrow> world \<Rightarrow> zfile list" where
  "zip_written flate cwd zipPath files opts w =
     (case WriteFile cwd zipPath 438 [] (w_disk w) of
        None \<Rightarrow> []
      | Some d1 \<Rightarrow>
          z_files (snd (zip_loop flate cwd d1 files opts
            \<lparr>z_level = (if CompressionLevel opts < - 1 \<or> 9 < CompressionLevel opts then - 1
                         else CompressionLevel opts),
             z_files = [], z_sink = w_sink w\<rparr>)))"

text \<open>An entry that holds what a read of the file named like it gives, on the disk \<open>disk\<close>.\<close>

definition from_disk :: "string \<Rightarrow> node \<Rightarrow> zfile \<Rightarrow> bool" where
  "from_disk cwd disk f \<longleftrightarrow>
     \<not> f_IsDir f \<and> (\<exists>bytes. f_Payload f = Content bytes \<and> ReadFile cwd (f_Name f) disk = Some bytes)"

text \<open>
  The names that the specification asks for one source path: a regular file gives its
  own path unless an exclusion pattern matches it, a directory gives the names of the
  specification's traversal when \<^verbatim>\<open>Recursive\<close> is set and nothing otherwise.
\<close>

definition source_names :: "string \<Rightarrow> node \<Rightarrow> ZipOptions \<Rightarrow> string \<Rightarrow> string list" where
  "source_names cwd disk opts path =
     (case Stat cwd path disk of
        None \<Rightarrow> []
      | Some info \<Rightarrow>
          if is_dir info then
            (if Recursive opts then spec_walk (ExcludePatterns opts) path info else [])
          else if matchesAny path (ExcludePatterns opts) then []
          else [path])"

text \<open>The walk goes on after a call of the walk function that answers nil or \<^verbatim>\<open>SkipDir\<close>.\<close>

definition went_on :: "walk_error option \<Rightarrow> bool" where
  "went_on r \<longleftrightarrow> r = None \<or> r = Some SkipDir"

section \<open>Verified properties\<close>

subsection \<open>File system operations\<close>

lemma map_of_update: "map_of (AList.update k v al) k' = (if k' = k then Some v else map_of al k')"
  by (simp add: update_conv')

lemma stat_at_Nil [simp]: "stat_at n [] = Some (attr_of n)"
  by (simp add: stat_at_def)

lemma stat_at_File_Cons [simp]: "stat_at (File p t d) (c # cs) = None"
  by (simp add: stat_at_def)

lemma stat_at_Dir_Cons:
  "stat_at (Directory p es) (c # cs) = (case map_of es c of None \<Rightarrow> None | Some ch \<Rightarrow> stat_at ch cs)"
  by (simp add: stat_at_def split: option.splits)

lemma stat_at_empty_dir [simp]: "stat_at (Directory p []) (c # cs) = None"
  by (simp add: stat_at_Dir_Cons)

text \<open>What \<open>mkdir_all\<close> leaves on the disk.\<close>

lemma mkdir_all_fresh: "\<exists>n'. mkdir_all perm cs (Directory q []) = Some n'"
  by (induction cs arbitrary: q) (auto split: option.splits)

lemma mkdir_all_stat:
  "mkdir_all perm cs n = Some n' \<Longrightarrow>
   stat_at n' ds = (if prefix ds cs \<and> stat_at n ds = None then Some (ADir perm) else stat_at n ds)"
proof (induction perm cs n arbitrary: n' ds rule: mkdir_all.induct)
  case (1 perm cs p t d)
  then show ?case by simp
next
  case (2 perm p es)
  then show ?case by auto
next
  case (3 perm c cs p es)
  let ?ch = "case map_of es c of None \<Rightarrow> Directory perm [] | Some ch \<Rightarrow> ch"
  from "3.prems" obtain ch' where ch': "mkdir_all perm cs ?ch = Some ch'"
    and n': "n' = Directory p (AList.update c ch' es)"
    by (auto split: option.splits)
  note IH = "3.IH"[OF ch']
  show ?case
  proof (cases ds)
    case Nil
    then show ?thesis by (simp add: n')
  next
    case (Cons e ds')
    show ?thesis
    proof (cases "e = c")
      case True
      show ?thesis
      proof (cases "map_of es c")
        case None
        then show ?thesis
          using IH[of ds'] Cons True
          by (cases ds') (auto simp: n' stat_at_Dir_Cons map_of_update)
      next
        case (Some ch)
        then show ?thesis
          using IH[of ds'] Cons True
          by (auto simp: n' stat_at_Dir_Cons map_of_update)
      qed
    next
      case False
      then show ?thesis
        using Cons by (auto simp: n' stat_at_Dir_Cons map_of_update)
    qed
  qed
qed

lemma mkdir_all_ok:
  "mkdir_all perm cs n = None \<longleftrightarrow> (\<exists>ds p t d. prefix ds cs \<and> stat_at n ds = Some (AFile p t d))"
proof (induction perm cs n rule: mkdir_all.induct)
  case (1 perm cs p t d)
  show ?case by (auto intro: exI[of _ "[]"])
next
  case (2 perm p es)
  show ?case by auto
next
  case (3 perm c cs p es)
  show ?case
  proof (cases "map_of es c")
    case None
    have "\<not> (\<exists>ds p' t d. prefix ds (c # cs) \<and> stat_at (Directory p es) ds = Some (AFile p' t d))"
      using None by (auto simp: prefix_Cons stat_at_Dir_Cons)
    moreover have "mkdir_all perm (c # cs) (Directory p es) \<noteq> None"
      using None mkdir_all_fresh[of perm cs perm] by auto
    ultimately show ?thesis by blast
  next
    case (Some ch)
    have "(\<exists>ds p' t d. prefix ds (c # cs) \<and> stat_at (Directory p es) ds = Some (AFile p' t d))
        \<longleftrightarrow> (\<exists>ds p' t d. prefix ds cs \<and> stat_at ch ds = Some (AFile p' t d))"
      using Some by (auto simp: prefix_Cons stat_at_Dir_Cons) 
    then show ?thesis
      using "3.IH" Some by (auto split: option.splits)
  qed
qed

text \<open>What \<open>put_file\<close> leaves on the disk.\<close>

lemma put_file_stat:
  "put_file perm bytes cs n = Some n' \<Longrightarrow>
   stat_at n' ds =
     (if ds = cs then
        Some (case stat_at n cs of Some (AFile q t d) \<Rightarrow> AFile q t bytes | _ \<Rightarrow> AFile perm 0 bytes)
      else stat_at n ds)"
proof (induction perm bytes cs n arbitrary: n' ds rule: put_file.induct)
  case (1 perm bytes n)
  then show ?case by simp
next
  case (2 perm bytes c cs p t d)
  then show ?case by simp
next
  case (3 perm bytes c p es)
  show ?case
  proof (cases ds)
    case Nil
    with "3.prems" show ?thesis
      by (auto split: option.splits node.splits)
  next
    case (Cons e ds')
    with "3.prems" show ?thesis
      by (cases ds') (auto simp: stat_at_Dir_Cons map_of_update split: option.splits node.splits)
  qed
next
  case (4 perm bytes c c' cs p es)
  from "4.prems" obtain ch ch' where ch: "map_of es c = Some ch"
    and ch': "put_file perm bytes (c' # cs) ch = Some ch'"
    and n': "n' = Directory p (AList.update c ch' es)"
    by (auto split: option.splits)
  note IH = "4.IH"[OF ch ch']
  show ?case
  proof (cases ds)
    case Nil
    then show ?thesis by (simp add: n')
  next
    case (Cons e ds')
    then show ?thesis
      using IH[of ds'] ch
      by (auto simp: n' stat_at_Dir_Cons map_of_update)
  qed
qed

lemma put_file_ok:
  "put_file perm bytes cs n \<noteq> None \<longleftrightarrow>
     cs \<noteq> [] \<and> (\<exists>p. stat_at n (butlast cs) = Some (ADir p)) \<and> (\<forall>p. stat_at n cs \<noteq> Some (ADir p))"
proof (induction perm bytes cs n rule: put_file.induct)
  case (1 perm bytes n)
  show ?case by simp
next
  case (2 perm bytes c cs p t d)
  show ?case by (cases cs) auto
next
  case (3 perm bytes c p es)
  show ?case
    by (auto simp: stat_at_Dir_Cons split: option.splits node.splits)
next
  case (4 perm bytes c c' cs p es)
  show ?case
  proof (cases "map_of es c")
    case None
    then show ?thesis by (simp add: stat_at_Dir_Cons)
  next
    case (Some ch)
    with "4.IH"[OF Some] show ?thesis
      by (auto simp: stat_at_Dir_Cons split: option.splits)
  qed
qed

text \<open>What \<open>chtimes\<close> leaves on the disk.\<close>

lemma chtimes_stat:
  "chtimes t cs n = Some n' \<Longrightarrow>
   stat_at n' ds =
     (if ds = cs then
        (case stat_at n cs of Some (AFile p t0 d) \<Rightarrow> Some (AFile p t d) | x \<Rightarrow> x)
      else stat_at n ds)"
proof (induction t cs n arbitrary: n' ds rule: chtimes.induct)
  case (1 t p t0 d)
  then show ?case by (cases ds) auto
next
  case (2 t p es)
  then show ?case by (cases ds) auto
next
  case (3 t c cs p t0 d)
  then show ?case by simp
next
  case (4 t c cs p es)
  from "4.prems" obtain ch ch' where ch: "map_of es c = Some ch"
    and ch': "chtimes t cs ch = Some ch'"
    and n': "n' = Directory p (AList.update c ch' es)"
    by (auto split: option.splits)
  note IH = "4.IH"[OF ch ch']
  show ?case
  proof (cases ds)
    case Nil
    then show ?thesis by (simp add: n')
  next
    case (Cons e ds')
    then show ?thesis
      using IH[of ds'] ch
      by (auto simp: n' stat_at_Dir_Cons map_of_update)
  qed
qed

lemma chtimes_ok: "chtimes t cs n \<noteq> None \<longleftrightarrow> stat_at n cs \<noteq> None"
  by (induction t cs n rule: chtimes.induct)
    (auto simp: stat_at_Dir_Cons split: option.splits)

subsection \<open>The pattern matcher\<close>

lemma matchesAny_iff:
  "matchesAny name patterns \<longleftrightarrow> (\<exists>p \<in> set patterns. Match p (Base name) = (True, None))"
  by (induction patterns) (auto split: prod.splits)

text \<open>
  Claim C4. The pattern matcher returns false on the empty pattern list; otherwise it
  returns true exactly when some pattern of the list is well formed (\<^verbatim>\<open>filepath.Match\<close>
  reports no error) and matches the base name of the name. Only the base name of the
  name is looked at: two names with the same base name are matched alike. A malformed
  pattern counts as one that does not match; the matcher has no error result.
\<close>

theorem matchesAny_spec:
  "matchesAny name [] = False \<and>
   (matchesAny name patterns \<longleftrightarrow> (\<exists>p \<in> set patterns. Match p (Base name) = (True, None))) \<and>
   (Base name = Base name' \<longrightarrow> matchesAny name patterns = matchesAny name' patterns)"
  by (simp add: matchesAny_iff)

theorem matchesAny_spec_witness:
  "matchesAny ''dir/foo.txt'' [''[invalid'', ''*.txt''] \<and>
   \<not> matchesAny ''a/b/foo.txt'' [''b/*.txt'', ''[invalid''] \<and>
   matchesAny ''sub/foo.txt'' [''*.txt''] = matchesAny ''dir/foo.txt'' [''*.txt'']"
proof -
  have m1: "Match ''*.txt'' (Base ''dir/foo.txt'') = (True, None)" by code_simp
  have m2: "Match ''b/*.txt'' (Base ''a/b/foo.txt'') = (False, None)" by code_simp
  have m3: "Match ''[invalid'' (Base ''a/b/foo.txt'') = (False, Some ErrBadPattern)" by code_simp
  have b: "Base ''sub/foo.txt'' = Base ''dir/foo.txt''" by code_simp
  from matchesAny_spec[of "''dir/foo.txt''" "[''[invalid'', ''*.txt'']"] m1
  have "matchesAny ''dir/foo.txt'' [''[invalid'', ''*.txt'']" by simp
  moreover from matchesAny_spec[of "''a/b/foo.txt''" "[''b/*.txt'', ''[invalid'']"] m2 m3
  have "\<not> matchesAny ''a/b/foo.txt'' [''b/*.txt'', ''[invalid'']" by simp
  moreover from matchesAny_spec[of "''sub/foo.txt''" "[''*.txt'']" "''dir/foo.txt''"] b
  have "matchesAny ''sub/foo.txt'' [''*.txt''] = matchesAny ''dir/foo.txt'' [''*.txt'']" by blast
  ultimately show ?thesis by simp
qed

subsection \<open>The archive writer: what a run appends\<close>

lemma stat_at_File: "stat_at n cs = Some (AFile p t d) \<longleftrightarrow> lookup n cs = Some (File p t d)"
proof -
  have "attr_of x = AFile p t d \<longleftrightarrow> x = File p t d" for x
    by (cases x) auto
  then show ?thesis by (auto simp: stat_at_def)
qed

lemma stat_at_Dir: "stat_at n cs = Some (ADir p) \<longleftrightarrow> (\<exists>es. lookup n cs = Some (Directory p es))"
proof -
  have "attr_of x = ADir p \<longleftrightarrow> (\<exists>es. x = Directory p es)" for x
    by (cases x) auto
  then show ?thesis by (auto simp: stat_at_def)
qed

lemma put_file_twice:
  assumes "put_file perm bytes cs n = Some n'"
  shows "\<exists>n''. put_file perm' bytes' cs n' = Some n''"
proof -
  from assms have ok: "put_file perm bytes cs n \<noteq> None" by simp
  then have ne: "cs \<noteq> []" and "\<exists>p. stat_at n (butlast cs) = Some (ADir p)"
    unfolding put_file_ok by blast+
  then obtain p where p: "stat_at n (butlast cs) = Some (ADir p)" by blast
  from ne have "butlast cs \<noteq> cs"
    by (metis append_butlast_last_id append_self_conv not_Cons_self2)
  with put_file_stat[OF assms, of "butlast cs"] p
  have 1: "stat_at n' (butlast cs) = Some (ADir p)" by simp
  from put_file_stat[OF assms, of cs]
  have 2: "\<forall>q. stat_at n' cs \<noteq> Some (ADir q)"
    by (auto split: option.splits attr.splits)
  from ne 1 2 have "put_file perm' bytes' cs n' \<noteq> None"
    by (subst put_file_ok) blast
  then show ?thesis by auto
qed

lemma put_file_read:
  assumes "put_file perm bytes cs n = Some n'"
  shows "\<exists>p t. lookup n' cs = Some (File p t bytes)"
  using put_file_stat[OF assms, of cs]
  by (auto simp: stat_at_File[symmetric] split: option.splits attr.splits)

lemma grows_refl: "grows P st st"
  by (simp add: grows_def)

lemma grows_trans: "grows P a b \<Longrightarrow> grows P b c \<Longrightarrow> grows P a c"
  by (fastforce simp: grows_def)

lemma grows_sink: "grows P st (st\<lparr>z_sink := x\<rparr>)"
  by (simp add: grows_def)

text \<open>An invariant of the calls of the walk function is an invariant of the walk.\<close>

lemma walk_invariant_aux:
  assumes rf: "\<And>s. R s s"
    and tr: "\<And>a b c. R a b \<Longrightarrow> R b c \<Longrightarrow> R a c"
  shows "(\<forall>p n e s r s'. walkFn p n e s = (r, s') \<longrightarrow> R s s') \<longrightarrow>
           walk walkFn path n st = (r, st') \<longrightarrow> R st st'"
    and "(\<forall>p n e s r s'. walkFn p n e s = (r, s') \<longrightarrow> R s s') \<longrightarrow>
           walk_names walkFn path es st = (r, st') \<longrightarrow> R st st'"
proof (induction walkFn path n st and walkFn path es st arbitrary: r st' and r st'
    rule: walk_walk_names.induct)
  case (1 walkFn path p t d st)
  show ?case by auto
next
  case (2 walkFn path p es st)
  show ?case
  proof (intro impI)
    assume step: "\<forall>p n e s r s'. walkFn p n e s = (r, s') \<longrightarrow> R s s'"
      and run: "walk walkFn path (Directory p es) st = (r, st')"
    obtain r1 s1 where f: "walkFn path (Directory p es) None st = (r1, s1)"
      by (cases "walkFn path (Directory p es) None st")
    have a: "R st s1" using f step by blast
    show "R st st'"
    proof (cases r1)
      case None
      with run f have "walk_names walkFn path (sort_key fst es) s1 = (r, st')" by simp
      with "2.IH"[OF f[symmetric] None] step have "R s1 st'" by blast
      with a show ?thesis by (rule tr)
    next
      case (Some e)
      with run f a show ?thesis by simp
    qed
  qed
next
  case (3 walkFn path st)
  show ?case by (auto intro: rf)
next
  case (4 walkFn path name child rest st)
  show ?case
  proof (intro impI)
    assume step: "\<forall>p n e s r s'. walkFn p n e s = (r, s') \<longrightarrow> R s s'"
      and run: "walk_names walkFn path ((name, child) # rest) st = (r, st')"
    obtain r1 s1 where f: "walk walkFn (Join [path, name]) child st = (r1, s1)"
      by (cases "walk walkFn (Join [path, name]) child st")
    have a: "R st s1" using f step "4.IH"(1) by blast
    show "R st st'"
    proof (cases r1)
      case None
      with run f have "walk_names walkFn path rest s1 = (r, st')" by simp
      with "4.IH"(2)[OF f[symmetric] None] step have "R s1 st'" by blast
      with a show ?thesis by (rule tr)
    next
      case (Some e)
      show ?thesis
      proof (cases "\<not> is_dir child \<or> e \<noteq> SkipDir")
        case True
        with run f Some a show ?thesis by simp
      next
        case False
        with run f Some have "walk_names walkFn path rest s1 = (r, st')" by simp
        with "4.IH"(3)[OF f[symmetric] Some False] step have "R s1 st'" by blast
        with a show ?thesis by (rule tr)
      qed
    qed
  qed
qed

lemma walk_invariant:
  assumes step: "\<And>p n e s r s'. walkFn p n e s = (r, s') \<Longrightarrow> R s s'"
    and rf: "\<And>s. R s s"
    and tr: "\<And>a b c. R a b \<Longrightarrow> R b c \<Longrightarrow> R a c"
    and run: "walk walkFn path n st = (r, st')"
  shows "R st st'"
proof -
  have "(\<forall>p n e s r s'. walkFn p n e s = (r, s') \<longrightarrow> R s s') \<longrightarrow>
          walk walkFn path n st = (r, st') \<longrightarrow> R st st'"
  proof (rule walk_invariant_aux(1))
    show "R s s" for s by (rule rf)
    show "R a b \<Longrightarrow> R b c \<Longrightarrow> R a c" for a b c by (rule tr)
  qed
  with step run show ?thesis by blast
qed

lemma writeFileToZip_level:
  assumes "writeFileToZip flate cwd disk path info opts st = (err, st')"
  shows "grows (level_ok flate opts (z_level st)) st st'"
  using assms
  by (auto simp: writeFileToZip_def entry_of_def Let_def grows_def level_ok_def
      split: if_splits option.splits node.splits)

lemma grows_level: "grows (level_ok flate opts l) st st' \<Longrightarrow> z_level st' = z_level st"
  by (simp add: grows_def)

lemma level_inv_refl: "level_inv flate opts l st st"
  by (simp add: level_inv_def grows_refl)

lemma level_inv_trans:
  "level_inv flate opts l a b \<Longrightarrow> level_inv flate opts l b c \<Longrightarrow> level_inv flate opts l a c"
  unfolding level_inv_def
  by (metis grows_level grows_trans)

lemma walkFn_level:
  assumes "addToZip_walkFn flate cwd disk opts p fi e st = (r, st')"
  shows "level_inv flate opts l st st'"
  using assms writeFileToZip_level[of flate cwd disk p fi opts st]
  by (auto simp: addToZip_walkFn_def level_inv_def grows_refl split: option.splits if_splits prod.splits)

lemma addToZip_level:
  assumes "addToZip flate cwd disk path opts st = (err, st')"
  shows "level_inv flate opts l st st'"
proof -
  have w: "walk (addToZip_walkFn flate cwd disk opts) path n st = (r, s') \<Longrightarrow> level_inv flate opts l st s'"
    for n r s'
    by (rule walk_invariant[where R = "level_inv flate opts l"])
      (auto intro: walkFn_level level_inv_refl level_inv_trans)
  show ?thesis
    using assms writeFileToZip_level[of flate cwd disk path _ opts st]
    by (auto simp: addToZip_def Walk_def level_inv_def grows_refl grows_sink
        split: option.splits if_splits prod.splits walk_error.splits dest!: w)
qed

lemma zip_loop_level:
  "zip_loop flate cwd disk files opts st = (err, st') \<Longrightarrow> level_inv flate opts l st st'"
proof (induction files arbitrary: st)
  case Nil
  then show ?case by (simp add: level_inv_refl)
next
  case (Cons name files)
  obtain e1 s1 where a: "addToZip flate cwd disk name opts st = (e1, s1)"
    by (cases "addToZip flate cwd disk name opts st")
  then have 1: "level_inv flate opts l st s1" by (rule addToZip_level)
  show ?case
  proof (cases e1)
    case None
    with Cons.prems a have "zip_loop flate cwd disk files opts s1 = (err, st')" by simp
    then have "level_inv flate opts l s1 st'" by (rule Cons.IH)
    with 1 show ?thesis by (rule level_inv_trans)
  next
    case (Some e)
    with Cons.prems a 1 show ?thesis by simp
  qed
qed

subsection \<open>Compression method and level\<close>

text \<open>
  Claim C5. Every entry of the archive that \<^verbatim>\<open>Zip\<close> leaves in the archive file has the
  method "stored" when the compression level of the options is 0, with its bytes stored
  as they are; for every other level it has the method "deflate", and its bytes went
  through the compressor at the configured level when that is between -1 and 9, and at
  the default level -1 otherwise.
\<close>

theorem Zip_compression:
  assumes run: "Zip enc flate cwd zipPath files opts w = (err, w')"
    and created: "WriteFile cwd zipPath 438 [] (w_disk w) \<noteq> None"
  shows "\<exists>fs. ReadFile cwd zipPath (w_disk w') = Some (enc fs) \<and>
     (\<forall>f \<in> set fs. \<exists>bytes. f_Payload f = Content bytes \<and>
        (if CompressionLevel opts = 0
         then f_Method f = Store \<and> f_CompressedSize64 f = length bytes
         else f_Method f = Deflate \<and>
              f_CompressedSize64 f =
                length (flate (if CompressionLevel opts < - 1 \<or> 9 < CompressionLevel opts then - 1
                               else CompressionLevel opts) bytes)))"
proof -
  let ?l = "if CompressionLevel opts < - 1 \<or> 9 < CompressionLevel opts then - 1 else CompressionLevel opts"
  let ?st0 = "\<lparr>z_level = ?l, z_files = [], z_sink = w_sink w\<rparr>"
  from created obtain d1 where d1: "WriteFile cwd zipPath 438 [] (w_disk w) = Some d1" by auto
  then obtain cs where cs: "locate cwd zipPath = Some cs" and p1: "put_file 438 [] cs (w_disk w) = Some d1"
    by (auto simp: WriteFile_def split: option.splits)
  obtain e st where loop: "zip_loop flate cwd d1 files opts ?st0 = (e, st)"
    by (cases "zip_loop flate cwd d1 files opts ?st0")
  from put_file_twice[OF p1] obtain d2 where p2: "put_file 438 (enc (z_files st)) cs d1 = Some d2"
    by blast
  from run d1 loop p2 cs have w': "w_disk w' = d2"
    by (auto simp: Zip_def Let_def WriteFile_def)
  from put_file_read[OF p2] have "ReadFile cwd zipPath d2 = Some (enc (z_files st))"
    by (auto simp: ReadFile_def Stat_def cs)
  moreover from zip_loop_level[OF loop, of ?l] have "\<forall>f \<in> set (z_files st). level_ok flate opts ?l f"
    by (auto simp: level_inv_def grows_def)
  ultimately show ?thesis
    unfolding w' level_ok_def by blast
qed

theorem Zip_compression_witness:
  "\<exists>fs. ReadFile ''/src'' ''/tmp/a.zip''
          (w_disk (snd (Zip demo_enc demo_flate ''/src'' ''/tmp/a.zip'' [''hello.txt'']
             \<lparr>Recursive = False, CompressionLevel = 12, ExcludePatterns = []\<rparr> demo_world))) = Some (demo_enc fs) \<and>
     (\<forall>f \<in> set fs. \<exists>bytes. f_Payload f = Content bytes \<and> f_Method f = Deflate \<and>
         f_CompressedSize64 f = length (demo_flate (- 1) bytes))"
proof -
  let ?opts = "\<lparr>Recursive = False, CompressionLevel = 12, ExcludePatterns = []\<rparr>"
  let ?run = "Zip demo_enc demo_flate ''/src'' ''/tmp/a.zip'' [''hello.txt''] ?opts demo_world"
  have c: "WriteFile ''/src'' ''/tmp/a.zip'' 438 [] (w_disk demo_world) \<noteq> None"
    by code_simp
  have r: "?run = (fst ?run, snd ?run)" by simp
  from Zip_compression[OF r c] show ?thesis by simp
qed

subsection \<open>Directories without the recursive flag\<close>

text \<open>
  Claim C8. When a source path is a directory and \<^verbatim>\<open>Recursive\<close> is false, \<^verbatim>\<open>addToZip\<close>
  returns no error; it sends one line to the status sink, which contains
  "skipped, not recursive"; it writes no entry (the entries of the writer are as before);
  and the loop of \<^verbatim>\<open>Zip\<close> goes on with the next source path.
\<close>

theorem addToZip_not_recursive:
  assumes "Stat cwd path disk = Some info" and "is_dir info" and "\<not> Recursive opts"
  shows "\<exists>line st'. addToZip flate cwd disk path opts st = (None, st') \<and>
           z_sink st' = z_sink st @ [line] \<and> sublist ''skipped, not recursive'' line \<and>
           z_files st' = z_files st \<and> z_level st' = z_level st \<and>
           zip_loop flate cwd disk (path # rest) opts st = zip_loop flate cwd disk rest opts st'"
proof -
  let ?line = "''  adding: '' @ path @ ''/ (skipped, not recursive)'' @ nl"
  let ?st' = "st\<lparr>z_sink := z_sink st @ [?line]\<rparr>"
  have a: "addToZip flate cwd disk path opts st = (None, ?st')"
    using assms by (simp add: addToZip_def)
  have "?line = (''  adding: '' @ path @ ''/ ('') @ ''skipped, not recursive'' @ ('')'' @ nl)"
    by simp
  then have s: "sublist ''skipped, not recursive'' ?line"
    unfolding sublist_def by blast
  from a s show ?thesis by simp
qed

theorem addToZip_not_recursive_witness:
  "\<exists>line st'. addToZip demo_flate ''/src'' demo_disk ''sub'' \<lparr>Recursive = False, CompressionLevel = 6, ExcludePatterns = []\<rparr>
         \<lparr>z_level = 6, z_files = [], z_sink = []\<rparr> = (None, st') \<and>
       z_sink st' = [] @ [line] \<and> sublist ''skipped, not recursive'' line \<and>
       z_files st' = [] \<and> z_level st' = 6 \<and>
       zip_loop demo_flate ''/src'' demo_disk [''sub'', ''hello.txt''] \<lparr>Recursive = False, CompressionLevel = 6, ExcludePatterns = []\<rparr>
         \<lparr>z_level = 6, z_files = [], z_sink = []\<rparr> =
       zip_loop demo_flate ''/src'' demo_disk [''hello.txt''] \<lparr>Recursive = False, CompressionLevel = 6, ExcludePatterns = []\<rparr> st'"
proof -
  have s: "Stat ''/src'' ''sub'' demo_disk = Some (Directory 493 [(''nested.txt'', File 420 7 ''nested content'')])"
    by code_simp
  from addToZip_not_recursive[OF s, of "\<lparr>Recursive = False, CompressionLevel = 6, ExcludePatterns = []\<rparr>"
      demo_flate "\<lparr>z_level = 6, z_files = [], z_sink = []\<rparr>" "[''hello.txt'']"]
  show ?thesis by simp
qed

subsection \<open>Listing\<close>

text \<open>
  Claim C9. If the archive can be opened, \<^verbatim>\<open>List\<close> returns one record for every
  entry, directories included, in the order of the archive, with the name, the two
  sizes, the modification time and the directory flag of the entry; the disk and the
  status sink are as before. If the archive cannot be opened the result is an error, and
  no list.
\<close>

theorem List_spec:
  "(OpenReader dec cwd zipPath (w_disk w) = None \<longrightarrow> List dec cwd zipPath w = (Inl ErrOpenArchive, w)) \<and>
   (\<forall>files. OpenReader dec cwd zipPath (w_disk w) = Some files \<longrightarrow>
      (\<exists>es. List dec cwd zipPath w = (Inr es, w) \<and> length es = length files \<and>
         (\<forall>i < length files.
            Name (es ! i) = f_Name (files ! i) \<and>
            UncompressedSize (es ! i) = f_UncompressedSize64 (files ! i) \<and>
            CompressedSize (es ! i) = f_CompressedSize64 (files ! i) \<and>
            Modified (es ! i) = f_Modified (files ! i) \<and>
            IsDir (es ! i) = f_IsDir (files ! i))))"
  by (simp add: List_def)

theorem List_spec_witness:
  "List demo_dec ''/'' ''/tmp/none.zip'' demo_zworld = (Inl ErrOpenArchive, demo_zworld) \<and>
   (\<exists>es. List demo_dec ''/'' ''/tmp/a.zip'' demo_zworld = (Inr es, demo_zworld) \<and>
      length es = length demo_archive \<and>
      Name (es ! 0) = ''a/'' \<and> IsDir (es ! 0) \<and>
      Name (es ! 1) = ''a/x.txt'' \<and> UncompressedSize (es ! 1) = 2 \<and> \<not> IsDir (es ! 1))"
proof -
  have n: "OpenReader demo_dec ''/'' ''/tmp/none.zip'' (w_disk demo_zworld) = None"
    by code_simp
  have a: "OpenReader demo_dec ''/'' ''/tmp/a.zip'' (w_disk demo_zworld) = Some demo_archive"
    by code_simp
  have l: "length demo_archive = 3" by code_simp
  have f0: "f_Name (demo_archive ! 0) = ''a/'' \<and> f_IsDir (demo_archive ! 0)" by code_simp
  have f1: "f_Name (demo_archive ! 1) = ''a/x.txt'' \<and> f_UncompressedSize64 (demo_archive ! 1) = 2 \<and>
            \<not> f_IsDir (demo_archive ! 1)" by code_simp
  from List_spec[of demo_dec "''/''" "''/tmp/none.zip''" demo_zworld] n
  have 1: "List demo_dec ''/'' ''/tmp/none.zip'' demo_zworld = (Inl ErrOpenArchive, demo_zworld)"
    by blast
  from List_spec[of demo_dec "''/''" "''/tmp/a.zip''" demo_zworld] a
  obtain es where es: "List demo_dec ''/'' ''/tmp/a.zip'' demo_zworld = (Inr es, demo_zworld)"
    and len: "length es = length demo_archive"
    and nth: "\<forall>i < length demo_archive.
            Name (es ! i) = f_Name (demo_archive ! i) \<and>
            UncompressedSize (es ! i) = f_UncompressedSize64 (demo_archive ! i) \<and>
            CompressedSize (es ! i) = f_CompressedSize64 (demo_archive ! i) \<and>
            Modified (es ! i) = f_Modified (demo_archive ! i) \<and>
            IsDir (es ! i) = f_IsDir (demo_archive ! i)"
    by blast
  from nth l have "Name (es ! 0) = f_Name (demo_archive ! 0)" "IsDir (es ! 0) = f_IsDir (demo_archive ! 0)"
    "Name (es ! 1) = f_Name (demo_archive ! 1)" "UncompressedSize (es ! 1) = f_UncompressedSize64 (demo_archive ! 1)"
    "IsDir (es ! 1) = f_IsDir (demo_archive ! 1)"
    by simp_all
  with f0 f1 1 es len show ?thesis by simp
qed

subsection \<open>Extraction: one entry\<close>

lemma extractFile_ok:
  assumes "extractFile cwd f destPath overwrite w = (None, w1)"
  shows "\<exists>bytes d1 d2. f_Payload f = Content bytes \<and>
           (overwrite \<or> Stat cwd destPath (w_disk w) = None) \<and>
           MkdirAll cwd (Dir destPath) 493 (w_disk w) = Some d1 \<and>
           WriteFile cwd destPath (f_Mode f) bytes d1 = Some d2 \<and>
           w1 = \<lparr>w_disk = d2, w_sink = w_sink w @ [''  inflating: '' @ destPath @ nl]\<rparr>"
  using assms
  by (auto simp: extractFile_def split: if_splits option.splits payload.splits)

lemma WriteFile_Chtimes_stat:
  assumes "WriteFile cwd path perm bytes d1 = Some d2" and "Chtimes cwd path t d2 = Some d3"
  shows "\<exists>p. map_option attr_of (Stat cwd path d3) = Some (AFile p t bytes)"
proof -
  from assms(1) obtain cs where cs: "locate cwd path = Some cs" and p: "put_file perm bytes cs d1 = Some d2"
    by (auto simp: WriteFile_def split: option.splits)
  from assms(2) cs have c: "chtimes t cs d2 = Some d3"
    by (simp add: Chtimes_def)
  from put_file_stat[OF p, of cs] obtain q t0 where "stat_at d2 cs = Some (AFile q t0 bytes)"
    by (auto split: option.splits attr.splits)
  with chtimes_stat[OF c, of cs] have "stat_at d3 cs = Some (AFile q t bytes)"
    by simp
  then show ?thesis
    by (auto simp: Stat_def cs stat_at_def)
qed

lemma MkdirAll_stat:
  assumes "MkdirAll cwd path perm d = Some d'"
  shows "\<exists>p. map_option attr_of (Stat cwd path d') = Some (ADir p)"
proof -
  from assms obtain cs where cs: "locate cwd path = Some cs" and m: "mkdir_all perm cs d = Some d'"
    by (auto simp: MkdirAll_def split: option.splits)
  have "mkdir_all perm cs d \<noteq> None" using m by simp
  then have nf: "\<not> (\<exists>p t b. stat_at d cs = Some (AFile p t b))"
    unfolding mkdir_all_ok by blast
  from mkdir_all_stat[OF m, of cs] nf have "\<exists>p. stat_at d' cs = Some (ADir p)"
    by (cases "stat_at d cs") (auto split: if_splits, metis attr.exhaust)
  then show ?thesis
    by (auto simp: Stat_def cs stat_at_def)
qed

text \<open>
  Claim C7. An entry is skipped (no error, the disk and the sink as before) when
  \<^verbatim>\<open>FilePatterns\<close> is not empty and no pattern matches the base name of the entry name.
  Otherwise, so always when \<^verbatim>\<open>FilePatterns\<close> is empty, the entry is extracted: when the
  step succeeds, the directory or the file stands at the output directory joined with
  the target name, which is the base name of the entry name when \<^verbatim>\<open>JunkPaths\<close> is set and
  the full entry name otherwise; a file has the bytes and the time of the entry.
\<close>

theorem unzip_entry_filter_target:
  "(FilePatterns opts \<noteq> [] \<and> \<not> (\<exists>p \<in> set (FilePatterns opts). Match p (Base (f_Name f)) = (True, None))
      \<longrightarrow> unzip_entry cwd opts outputDir absOutputDir f w = (None, w)) \<and>
   ((FilePatterns opts = [] \<or> (\<exists>p \<in> set (FilePatterns opts). Match p (Base (f_Name f)) = (True, None))) \<and>
    unzip_entry cwd opts outputDir absOutputDir f w = (None, w')
      \<longrightarrow> (let destPath = Join [outputDir, if JunkPaths opts then Base (f_Name f) else f_Name f] in
            if f_IsDir f then
              (\<exists>p. map_option attr_of (Stat cwd destPath (w_disk w')) = Some (ADir p)) \<and>
              w_sink w' = w_sink w
            else
              (\<exists>bytes p. f_Payload f = Content bytes \<and>
                 map_option attr_of (Stat cwd destPath (w_disk w')) = Some (AFile p (f_Modified f) bytes)) \<and>
              w_sink w' = w_sink w @ [''  inflating: '' @ destPath @ nl]))"
proof (intro conjI impI)
  assume "FilePatterns opts \<noteq> [] \<and> \<not> (\<exists>p \<in> set (FilePatterns opts). Match p (Base (f_Name f)) = (True, None))"
  then show "unzip_entry cwd opts outputDir absOutputDir f w = (None, w)"
    by (simp add: unzip_entry_def matchesAny_iff)
next
  let ?dest = "Join [outputDir, if JunkPaths opts then Base (f_Name f) else f_Name f]"
  assume a: "(FilePatterns opts = [] \<or> (\<exists>p \<in> set (FilePatterns opts). Match p (Base (f_Name f)) = (True, None))) \<and>
    unzip_entry cwd opts outputDir absOutputDir f w = (None, w')"
  then have ns: "\<not> (FilePatterns opts \<noteq> [] \<and> \<not> matchesAny (f_Name f) (FilePatterns opts))"
    by (auto simp: matchesAny_iff)
  from a have run: "unzip_entry cwd opts outputDir absOutputDir f w = (None, w')" by simp
  show "let destPath = ?dest in
            if f_IsDir f then
              (\<exists>p. map_option attr_of (Stat cwd destPath (w_disk w')) = Some (ADir p)) \<and>
              w_sink w' = w_sink w
            else
              (\<exists>bytes p. f_Payload f = Content bytes \<and>
                 map_option attr_of (Stat cwd destPath (w_disk w')) = Some (AFile p (f_Modified f) bytes)) \<and>
              w_sink w' = w_sink w @ [''  inflating: '' @ destPath @ nl]"
  proof (cases "f_IsDir f")
    case True
    with run ns obtain d where m: "MkdirAll cwd ?dest (f_Mode f) (w_disk w) = Some d" and w': "w' = w\<lparr>w_disk := d\<rparr>"
      by (auto simp: unzip_entry_def Let_def split: if_splits option.splits)
    from MkdirAll_stat[OF m] True show ?thesis by (simp add: w' Let_def)
  next
    case False
    with run ns obtain w1 d where e: "extractFile cwd f ?dest (Overwrite opts) w = (None, w1)"
      and c: "Chtimes cwd ?dest (f_Modified f) (w_disk w1) = Some d" and w': "w' = w1\<lparr>w_disk := d\<rparr>"
      by (auto simp: unzip_entry_def Let_def split: if_splits option.splits prod.splits)
    from extractFile_ok[OF e] obtain bytes d1 d2 where b: "f_Payload f = Content bytes"
      and wf: "WriteFile cwd ?dest (f_Mode f) bytes d1 = Some d2"
      and w1: "w1 = \<lparr>w_disk = d2, w_sink = w_sink w @ [''  inflating: '' @ ?dest @ nl]\<rparr>"
      by blast
    from c w1 have c': "Chtimes cwd ?dest (f_Modified f) d2 = Some d" by simp
    from WriteFile_Chtimes_stat[OF wf c'] b False show ?thesis
      by (simp add: w' w1 Let_def)
  qed
qed

theorem unzip_entry_filter_target_witness:
  "unzip_entry ''/'' \<lparr>OutputDir = ''/tmp/out'', Overwrite = True, JunkPaths = True, FilePatterns = [''*.go'']\<rparr>
      ''/tmp/out'' ''/tmp/out'' (demo_archive ! 1) demo_zworld = (None, demo_zworld) \<and>
   (\<exists>p. map_option attr_of (Stat ''/'' ''/tmp/out/x.txt''
      (w_disk (snd (unzip_entry ''/'' \<lparr>OutputDir = ''/tmp/out'', Overwrite = True, JunkPaths = True, FilePatterns = [''*.txt'']\<rparr>
         ''/tmp/out'' ''/tmp/out'' (demo_archive ! 1) demo_zworld)))) = Some (AFile p 2 ''hi'')) \<and>
   (\<exists>p. map_option attr_of (Stat ''/'' ''/tmp/out/a/x.txt''
      (w_disk (snd (unzip_entry ''/'' \<lparr>OutputDir = ''/tmp/out'', Overwrite = True, JunkPaths = False, FilePatterns = []\<rparr>
         ''/tmp/out'' ''/tmp/out'' (demo_archive ! 1) demo_zworld)))) = Some (AFile p 2 ''hi''))"
proof -
  let ?f = "demo_archive ! 1"
  let ?o1 = "\<lparr>OutputDir = ''/tmp/out'', Overwrite = True, JunkPaths = True, FilePatterns = [''*.go'']\<rparr>"
  let ?o2 = "\<lparr>OutputDir = ''/tmp/out'', Overwrite = True, JunkPaths = True, FilePatterns = [''*.txt'']\<rparr>"
  let ?o3 = "\<lparr>OutputDir = ''/tmp/out'', Overwrite = True, JunkPaths = False, FilePatterns = []\<rparr>"
  let ?r2 = "unzip_entry ''/'' ?o2 ''/tmp/out'' ''/tmp/out'' ?f demo_zworld"
  let ?r3 = "unzip_entry ''/'' ?o3 ''/tmp/out'' ''/tmp/out'' ?f demo_zworld"
  have f: "f_Name ?f = ''a/x.txt'' \<and> \<not> f_IsDir ?f \<and> f_Modified ?f = 2 \<and> f_Payload ?f = Content ''hi''"
    by code_simp
  have m1: "Match ''*.go'' (Base ''a/x.txt'') = (False, None)" by code_simp
  have m2: "Match ''*.txt'' (Base ''a/x.txt'') = (True, None)" by code_simp
  have j2: "Join [''/tmp/out'', Base ''a/x.txt''] = ''/tmp/out/x.txt''" by code_simp
  have j3: "Join [''/tmp/out'', ''a/x.txt''] = ''/tmp/out/a/x.txt''" by code_simp
  have e2: "fst ?r2 = None" by code_simp
  have e3: "fst ?r3 = None" by code_simp
  from unzip_entry_filter_target[of ?o1 ?f "''/''" "''/tmp/out''" "''/tmp/out''" demo_zworld] f m1
  have 1: "unzip_entry ''/'' ?o1 ''/tmp/out'' ''/tmp/out'' ?f demo_zworld = (None, demo_zworld)"
    by simp
  have r2: "?r2 = (None, snd ?r2)" using e2 by (metis prod.collapse)
  have r3: "?r3 = (None, snd ?r3)" using e3 by (metis prod.collapse)
  from unzip_entry_filter_target[of ?o2 ?f "''/''" "''/tmp/out''" "''/tmp/out''" demo_zworld "snd ?r2"] f m2 r2 j2
  have 2: "\<exists>p. map_option attr_of (Stat ''/'' ''/tmp/out/x.txt'' (w_disk (snd ?r2))) = Some (AFile p 2 ''hi'')"
    by (simp add: Let_def)
  from unzip_entry_filter_target[of ?o3 ?f "''/''" "''/tmp/out''" "''/tmp/out''" demo_zworld "snd ?r3"] f r3 j3
  have 3: "\<exists>p. map_option attr_of (Stat ''/'' ''/tmp/out/a/x.txt'' (w_disk (snd ?r3))) = Some (AFile p 2 ''hi'')"
    by (simp add: Let_def)
  from 1 2 3 show ?thesis by blast
qed

subsection \<open>Permission bits of what an extraction creates\<close>

text \<open>
  Claim C10. When \<^verbatim>\<open>extractFile\<close> succeeds, every directory that it has created (a
  place where nothing was before and a directory is now) has the permission bits 0755
  (493), whatever the archive says; every directory that was there keeps its bits; the
  only file that it has created is the one at the destination path, with the permission
  bits of the entry. The parent directory of the destination exists afterwards, with
  the bits 0755 when it was not there.
\<close>

theorem extractFile_modes:
  assumes "extractFile cwd f destPath overwrite w = (None, w')"
  shows "(\<forall>cs p. stat_at (w_disk w) cs = None \<and> stat_at (w_disk w') cs = Some (ADir p) \<longrightarrow> p = 493) \<and>
     (\<forall>cs p. stat_at (w_disk w) cs = Some (ADir p) \<longrightarrow> stat_at (w_disk w') cs = Some (ADir p)) \<and>
     (\<forall>cs p t b. stat_at (w_disk w) cs = None \<and> stat_at (w_disk w') cs = Some (AFile p t b)
        \<longrightarrow> p = f_Mode f \<and> locate cwd destPath = Some cs) \<and>
     (\<exists>p. map_option attr_of (Stat cwd (Dir destPath) (w_disk w')) = Some (ADir p) \<and>
        (Stat cwd (Dir destPath) (w_disk w) = None \<longrightarrow> p = 493))"
proof -
  from extractFile_ok[OF assms] obtain bytes d1 d2 where
    mk: "MkdirAll cwd (Dir destPath) 493 (w_disk w) = Some d1"
    and wf: "WriteFile cwd destPath (f_Mode f) bytes d1 = Some d2"
    and w': "w_disk w' = d2"
    by auto
  from mk obtain ps where ps: "locate cwd (Dir destPath) = Some ps"
    and m: "mkdir_all 493 ps (w_disk w) = Some d1"
    by (auto simp: MkdirAll_def split: option.splits)
  from wf obtain ls where ls: "locate cwd destPath = Some ls"
    and p: "put_file (f_Mode f) bytes ls d1 = Some d2"
    by (auto simp: WriteFile_def split: option.splits)
  note M = mkdir_all_stat[OF m]
  note P = put_file_stat[OF p]
  have nd: "\<forall>q. stat_at d1 ls \<noteq> Some (ADir q)"
    using p put_file_ok[of "f_Mode f" bytes ls d1] by auto
  have 1: "p' = 493" if "stat_at (w_disk w) cs = None" "stat_at d2 cs = Some (ADir p')" for cs p'
    using that M[of cs] P[of cs] by (auto split: if_splits option.splits attr.splits)
  have 2: "stat_at d2 cs = Some (ADir p')" if "stat_at (w_disk w) cs = Some (ADir p')" for cs p'
    using that M[of cs] P[of cs] nd by (auto split: if_splits)
  have 3: "p' = f_Mode f \<and> cs = ls" if "stat_at (w_disk w) cs = None" "stat_at d2 cs = Some (AFile p' t b)" for cs p' t b
    using that M[of cs] P[of cs] by (auto split: if_splits option.splits attr.splits)
  from MkdirAll_stat[OF mk] obtain q where q: "stat_at d1 ps = Some (ADir q)"
    by (auto simp: Stat_def ps stat_at_def)
  with nd have "ps \<noteq> ls" by auto
  with P[of ps] q have q2: "stat_at d2 ps = Some (ADir q)" by simp
  have q3: "q = 493" if "stat_at (w_disk w) ps = None"
    using that M[of ps] q by (auto split: if_splits)
  have 4: "\<exists>p. map_option attr_of (Stat cwd (Dir destPath) d2) = Some (ADir p) \<and>
        (Stat cwd (Dir destPath) (w_disk w) = None \<longrightarrow> p = 493)"
    using q2 q3 by (auto simp: Stat_def ps stat_at_def)
  from 1 2 3 4 show ?thesis
    unfolding w' ls by blast
qed

theorem extractFile_modes_witness:
  "map_option attr_of (Stat ''/'' ''/tmp/out/b/c''
      (w_disk (snd (extractFile ''/'' (demo_archive ! 2) ''/tmp/out/b/c/y.txt'' False demo_zworld)))) = Some (ADir 493) \<and>
   stat_at (w_disk (snd (extractFile ''/'' (demo_archive ! 2) ''/tmp/out/b/c/y.txt'' False demo_zworld))) [''tmp'', ''out'']
     = Some (ADir 493) \<and>
   f_Mode (demo_archive ! 2) = 384"
proof -
  let ?r = "extractFile ''/'' (demo_archive ! 2) ''/tmp/out/b/c/y.txt'' False demo_zworld"
  have e: "fst ?r = None" by code_simp
  then have r: "?r = (None, snd ?r)" by (metis prod.collapse)
  have d: "Dir ''/tmp/out/b/c/y.txt'' = ''/tmp/out/b/c''" by code_simp
  have s: "Stat ''/'' ''/tmp/out/b/c'' (w_disk demo_zworld) = None" by code_simp
  have s0: "stat_at (w_disk demo_zworld) [''tmp'', ''out''] = None" by code_simp
  have "case stat_at (w_disk (snd ?r)) [''tmp'', ''out''] of Some (ADir p) \<Rightarrow> True | _ \<Rightarrow> False"
    by code_simp
  then have s1: "\<exists>p. stat_at (w_disk (snd ?r)) [''tmp'', ''out''] = Some (ADir p)"
    by (auto split: option.splits attr.splits)
  have md: "f_Mode (demo_archive ! 2) = 384" by code_simp
  note T = extractFile_modes[OF r]
  from T d s have 1: "map_option attr_of (Stat ''/'' ''/tmp/out/b/c'' (w_disk (snd ?r))) = Some (ADir 493)"
    by auto
  from T s0 s1 have 2: "stat_at (w_disk (snd ?r)) [''tmp'', ''out''] = Some (ADir 493)"
    by blast
  from 1 2 md show ?thesis by simp
qed

subsection \<open>The recursive traversal\<close>

lemma walked_append:
  assumes "walked xs r1 st s1" and "r1 = None \<or> r1 = Some SkipDir" and "walked ys r s1 st'"
    and "r \<noteq> Some SkipDir"
  shows "walked (xs @ ys) r st st'"
proof -
  from assms(1,2) obtain n1 where n1: "z_files s1 = z_files st @ n1" "\<forall>f \<in> set n1. \<not> f_IsDir f"
    "map f_Name n1 = map ToSlash xs"
    by (auto simp: walked_def)
  from assms(3) obtain n2 where n2: "z_files st' = z_files s1 @ n2" "\<forall>f \<in> set n2. \<not> f_IsDir f"
    "case r of None \<Rightarrow> map f_Name n2 = map ToSlash ys
         | Some SkipDir \<Rightarrow> n2 = [] \<and> ys = []
         | Some (WalkErr e) \<Rightarrow> prefix (map f_Name n2) (map ToSlash ys)"
    by (auto simp: walked_def)
  show ?thesis
    unfolding walked_def
  proof (intro exI[of _ "n1 @ n2"] conjI)
    show "z_files st' = z_files st @ n1 @ n2" using n1 n2 by simp
    show "\<forall>f \<in> set (n1 @ n2). \<not> f_IsDir f" using n1 n2 by auto
    show "case r of None \<Rightarrow> map f_Name (n1 @ n2) = map ToSlash (xs @ ys)
         | Some SkipDir \<Rightarrow> n1 @ n2 = [] \<and> xs @ ys = []
         | Some (WalkErr e) \<Rightarrow> prefix (map f_Name (n1 @ n2)) (map ToSlash (xs @ ys))"
      using n1(3) n2(3) assms(4)
      by (auto split: option.splits walk_error.splits)
  qed
qed

lemma walked_error:
  assumes "walked xs (Some (WalkErr e)) st st'"
  shows "walked (xs @ ys) (Some (WalkErr e)) st st'"
  using assms by (auto simp: walked_def intro: prefix_order.trans)

lemma writeFileToZip_walked:
  assumes "writeFileToZip flate cwd disk p fi opts st = (e, st')" and "\<not> is_dir fi"
  shows "walked [p] (map_option WalkErr e) st st'"
  using assms
  by (auto simp: writeFileToZip_def entry_of_def Let_def walked_def ToSlash_def
      split: if_splits option.splits node.splits)

lemma walkFn_walked:
  assumes "addToZip_walkFn flate cwd disk opts p fi None st = (r, st')"
  shows "walked (if matchesAny p (ExcludePatterns opts) \<or> is_dir fi then [] else [p]) r st st' \<and>
         (r = Some SkipDir \<longrightarrow> is_dir fi \<and> matchesAny p (ExcludePatterns opts)) \<and>
         (r = None \<and> is_dir fi \<longrightarrow> \<not> matchesAny p (ExcludePatterns opts))"
proof (cases "matchesAny p (ExcludePatterns opts) \<or> is_dir fi")
  case True
  with assms show ?thesis
    by (auto simp: addToZip_walkFn_def walked_def split: if_splits)
next
  case False
  then obtain e where w: "writeFileToZip flate cwd disk p fi opts st = (e, st')"
    and r: "r = map_option WalkErr e"
    using assms by (auto simp: addToZip_walkFn_def split: prod.splits option.splits)
  from writeFileToZip_walked[OF w] False r show ?thesis by auto
qed

lemma walk_walked:
  shows "walkFn = addToZip_walkFn flate cwd disk opts \<longrightarrow> walk walkFn path n st = (r, st') \<longrightarrow>
           walked (spec_walk (ExcludePatterns opts) path n) r st st' \<and> (r = Some SkipDir \<longrightarrow> is_dir n)"
    and "walkFn = addToZip_walkFn flate cwd disk opts \<longrightarrow> walk_names walkFn path es st = (r, st') \<longrightarrow>
           walked (spec_walk_names (ExcludePatterns opts) path es) r st st' \<and> r \<noteq> Some SkipDir"
proof (induction walkFn path n st and walkFn path es st arbitrary: r st' and r st'
    rule: walk_walk_names.induct)
  case (1 walkFn path p t d st)
  show ?case
    using walkFn_walked[of flate cwd disk opts path "File p t d" st r st']
    by auto
next
  case (2 walkFn path p es st)
  show ?case
  proof (intro impI)
    assume fn: "walkFn = addToZip_walkFn flate cwd disk opts"
      and run: "walk walkFn path (Directory p es) st = (r, st')"
    obtain r1 s1 where f: "walkFn path (Directory p es) None st = (r1, s1)"
      by (cases "walkFn path (Directory p es) None st")
    note a = walkFn_walked[OF f[unfolded fn]]
    show "walked (spec_walk (ExcludePatterns opts) path (Directory p es)) r st st' \<and>
          (r = Some SkipDir \<longrightarrow> is_dir (Directory p es))"
    proof (cases r1)
      case None
      with run f have rest: "walk_names walkFn path (sort_key fst es) s1 = (r, st')" by simp
      with "2.IH"[OF f[symmetric] None] fn
      have b: "walked (spec_walk_names (ExcludePatterns opts) path (sort_key fst es)) r s1 st'"
        and ns: "r \<noteq> Some SkipDir" by blast+
      from a None have nm: "\<not> matchesAny path (ExcludePatterns opts)" by simp
      from a None have a': "walked [] None st s1" by simp
      from walked_append[OF a' _ b ns] nm show ?thesis by simp
    next
      case (Some e)
      with run f have eq: "r = Some e" "st' = s1" by simp_all
      show ?thesis
      proof (cases e)
        case SkipDir
        with a Some eq show ?thesis by simp
      next
        case (WalkErr x)
        with a Some eq have "walked [] (Some (WalkErr x)) st st'" by simp
        from walked_error[OF this, of "spec_walk (ExcludePatterns opts) path (Directory p es)"]
        show ?thesis using eq Some WalkErr by simp
      qed
    qed
  qed
next
  case (3 walkFn path st)
  show ?case by (auto simp: walked_def)
next
  case (4 walkFn path name child rest st)
  show ?case
  proof (intro impI)
    assume fn: "walkFn = addToZip_walkFn flate cwd disk opts"
      and run: "walk_names walkFn path ((name, child) # rest) st = (r, st')"
    obtain r1 s1 where f: "walk walkFn (Join [path, name]) child st = (r1, s1)"
      by (cases "walk walkFn (Join [path, name]) child st")
    from "4.IH"(1) fn f
    have a: "walked (spec_walk (ExcludePatterns opts) (Join [path, name]) child) r1 st s1"
      and sk: "r1 = Some SkipDir \<longrightarrow> is_dir child" by blast+
    let ?ys = "spec_walk_names (ExcludePatterns opts) path rest"
    show "walked (spec_walk_names (ExcludePatterns opts) path ((name, child) # rest)) r st st' \<and>
          r \<noteq> Some SkipDir"
    proof (cases r1)
      case None
      with run f have rest: "walk_names walkFn path rest s1 = (r, st')" by simp
      with "4.IH"(2)[OF f[symmetric] None] fn
      have b: "walked ?ys r s1 st'" and ns: "r \<noteq> Some SkipDir" by blast+
      from walked_append[OF a _ b ns] None ns show ?thesis by simp
    next
      case (Some e)
      show ?thesis
      proof (cases "\<not> is_dir child \<or> e \<noteq> SkipDir")
        case True
        with run f Some have eq: "r = Some e" "st' = s1" by simp_all
        from True sk Some have "e \<noteq> SkipDir" by auto
        then obtain x where x: "e = WalkErr x" by (cases e) auto
        from a Some x have "walked (spec_walk (ExcludePatterns opts) (Join [path, name]) child) (Some (WalkErr x)) st s1"
          by simp
        from walked_error[OF this, of ?ys] eq x show ?thesis by simp
      next
        case False
        with run f Some have rest: "walk_names walkFn path rest s1 = (r, st')" by simp
        with "4.IH"(3)[OF f[symmetric] Some False] fn
        have b: "walked ?ys r s1 st'" and ns: "r \<noteq> Some SkipDir" by blast+
        from False have e: "e = SkipDir" by simp
        from walked_append[OF a _ b ns] Some e ns show ?thesis by simp
      qed
    qed
  qed
qed

text \<open>
  Claim C6. When a source path is a directory and \<^verbatim>\<open>Recursive\<close> is true, the entries that
  \<^verbatim>\<open>addToZip\<close> appends are entries of files, never of directories, and their names are,
  in order, the paths that the specification's traversal lists: tested by base name
  against the exclusion patterns, a matching directory skipped with its subtree, a
  matching file skipped alone, every other regular file listed. When an error stops the
  walk, the names appended so far are a prefix of that list.
\<close>

theorem addToZip_recursive_walk:
  assumes "Stat cwd path disk = Some info" and "is_dir info" and "Recursive opts"
    and "addToZip flate cwd disk path opts st = (err, st')"
  shows "\<exists>new. z_files st' = z_files st @ new \<and> (\<forall>f \<in> set new. \<not> f_IsDir f) \<and>
           prefix (map f_Name new) (map ToSlash (spec_walk (ExcludePatterns opts) path info)) \<and>
           (err = None \<longrightarrow> map f_Name new = map ToSlash (spec_walk (ExcludePatterns opts) path info))"
proof -
  obtain r s1 where w: "walk (addToZip_walkFn flate cwd disk opts) path info st = (r, s1)"
    by (cases "walk (addToZip_walkFn flate cwd disk opts) path info st")
  from walk_walked(1)[of "addToZip_walkFn flate cwd disk opts" flate cwd disk opts path info st r s1] w
  have a: "walked (spec_walk (ExcludePatterns opts) path info) r st s1" by blast
  from assms w have e: "st' = s1" "err = (case r of None \<Rightarrow> None | Some SkipDir \<Rightarrow> None | Some (WalkErr e) \<Rightarrow> Some e)"
    by (auto simp: addToZip_def Walk_def split: option.splits walk_error.splits)
  from a e show ?thesis
    by (auto simp: walked_def split: option.splits walk_error.splits)
qed

theorem addToZip_recursive_walk_witness:
  "\<exists>new. z_files (snd (addToZip demo_flate ''/src'' demo_disk ''.''
           \<lparr>Recursive = True, CompressionLevel = 6, ExcludePatterns = [''su?'', ''*.go'']\<rparr>
           \<lparr>z_level = 6, z_files = [], z_sink = []\<rparr>)) = new \<and>
         (\<forall>f \<in> set new. \<not> f_IsDir f) \<and> map f_Name new = [''hello.txt'']"
proof -
  let ?opts = "\<lparr>Recursive = True, CompressionLevel = 6, ExcludePatterns = [''su?'', ''*.go'']\<rparr>"
  let ?st = "\<lparr>z_level = 6, z_files = [], z_sink = []\<rparr>"
  let ?info = "Directory 493
           [(''foo.go'', File 420 6 ''package foo''),
            (''hello.txt'', File 420 5 ''hello world''),
            (''sub'', Directory 493 [(''nested.txt'', File 420 7 ''nested content'')])]"
  let ?r = "addToZip demo_flate ''/src'' demo_disk ''.'' ?opts ?st"
  have s: "Stat ''/src'' ''.'' demo_disk = Some ?info" by code_simp
  have e: "fst ?r = None" by code_simp
  then have r: "?r = (None, snd ?r)" by (metis prod.collapse)
  have x: "map ToSlash (spec_walk (ExcludePatterns ?opts) ''.'' ?info) = [''hello.txt'']" by code_simp
  from addToZip_recursive_walk[OF s _ _ r] x show ?thesis by simp
qed

subsection \<open>Extraction: the disk only grows, and a second run\<close>

lemma unzip_entry_unfold:
  "unzip_entry cwd opts outputDir absOutputDir f w =
     (if entry_skipped opts f then (None, w)
      else if \<not> inside_root cwd absOutputDir (entry_dest opts outputDir f)
      then (Some (ErrIllegalFilePath (f_Name f)), w)
      else if f_IsDir f then
        (case MkdirAll cwd (entry_dest opts outputDir f) (f_Mode f) (w_disk w) of
           None \<Rightarrow> (Some (ErrMkdir (entry_dest opts outputDir f)), w)
         | Some d \<Rightarrow> (None, w\<lparr>w_disk := d\<rparr>))
      else
        (case extractFile cwd f (entry_dest opts outputDir f) (Overwrite opts) w of
           (Some e, w') \<Rightarrow> (Some e, w')
         | (None, w') \<Rightarrow>
             (case Chtimes cwd (entry_dest opts outputDir f) (f_Modified f) (w_disk w') of
                None \<Rightarrow> (Some (ErrChtimes (entry_dest opts outputDir f)), w')
              | Some d \<Rightarrow> (None, w'\<lparr>w_disk := d\<rparr>))))"
  unfolding unzip_entry_def entry_skipped_def entry_dest_def inside_root_def Let_def
  by simp

lemma extends_refl: "extends d d"
  by (simp add: extends_def)

lemma extends_trans: "extends a b \<Longrightarrow> extends b c \<Longrightarrow> extends a c"
  by (simp add: extends_def)

lemma mkdir_all_extends: "mkdir_all perm cs d = Some d' \<Longrightarrow> extends d d'"
  by (auto simp: extends_def is_file_at_def is_dir_at_def mkdir_all_stat)

lemma put_file_extends:
  assumes "put_file perm bytes cs d = Some d'"
  shows "extends d d'"
proof -
  have nd: "\<forall>q. stat_at d cs \<noteq> Some (ADir q)"
    using assms put_file_ok[of perm bytes cs d] by auto
  show ?thesis
    using nd by (auto simp: extends_def is_file_at_def is_dir_at_def put_file_stat[OF assms])
qed

lemma chtimes_extends: "chtimes t cs d = Some d' \<Longrightarrow> extends d d'"
  by (auto simp: extends_def is_file_at_def is_dir_at_def chtimes_stat)

lemma MkdirAll_extends: "MkdirAll cwd path perm d = Some d' \<Longrightarrow> extends d d'"
  by (auto simp: MkdirAll_def split: option.splits intro: mkdir_all_extends)

lemma WriteFile_extends: "WriteFile cwd path perm bytes d = Some d' \<Longrightarrow> extends d d'"
  by (auto simp: WriteFile_def split: option.splits intro: put_file_extends)

lemma Chtimes_extends: "Chtimes cwd path t d = Some d' \<Longrightarrow> extends d d'"
  by (auto simp: Chtimes_def split: option.splits intro: chtimes_extends)

lemma extractFile_extends:
  assumes "extractFile cwd f destPath overwrite w = (r, w')"
  shows "extends (w_disk w) (w_disk w')"
  using assms
  by (auto simp: extractFile_def extends_refl split: if_splits option.splits payload.splits
      dest!: MkdirAll_extends WriteFile_extends intro: extends_trans)

lemma unzip_entry_extends:
  assumes "unzip_entry cwd opts outputDir absOutputDir f w = (r, w')"
  shows "extends (w_disk w) (w_disk w')"
proof -
  have e: "extends (w_disk w) (w_disk w1)" if "extractFile cwd f p ow w = (r1, w1)" for p ow r1 w1
    using that by (rule extractFile_extends)
  show ?thesis
    using assms unfolding unzip_entry_unfold
    by (auto simp: extends_refl split: if_splits option.splits prod.splits
        dest!: MkdirAll_extends Chtimes_extends e intro: extends_trans)
qed

lemma unzip_loop_extends:
  "unzip_loop cwd opts outputDir absOutputDir fs w = (r, w') \<Longrightarrow> extends (w_disk w) (w_disk w')"
proof (induction fs arbitrary: w)
  case Nil
  then show ?case by (simp add: extends_refl)
next
  case (Cons f fs)
  obtain r1 w1 where s: "unzip_entry cwd opts outputDir absOutputDir f w = (r1, w1)"
    by (cases "unzip_entry cwd opts outputDir absOutputDir f w")
  then have a: "extends (w_disk w) (w_disk w1)" by (rule unzip_entry_extends)
  show ?case
  proof (cases r1)
    case None
    with Cons.prems s have "unzip_loop cwd opts outputDir absOutputDir fs w1 = (r, w')" by simp
    then have "extends (w_disk w1) (w_disk w')" by (rule Cons.IH)
    with a show ?thesis by (rule extends_trans)
  next
    case (Some e)
    with Cons.prems s a show ?thesis by simp
  qed
qed

lemma stat_at_prefix_dir:
  "stat_at d (xs @ ys) \<noteq> None \<Longrightarrow> ys \<noteq> [] \<Longrightarrow> is_dir_at d xs"
proof (induction xs arbitrary: d)
  case Nil
  then show ?case
    by (cases d; cases ys) (auto simp: is_dir_at_def)
next
  case (Cons x xs)
  then show ?case
    by (cases d) (auto simp: is_dir_at_def stat_at_Dir_Cons split: option.splits)
qed

lemma mkdir_all_existing:
  assumes "is_dir_at d cs"
  shows "\<exists>d'. mkdir_all perm cs d = Some d'"
proof -
  have "\<not> (\<exists>ds p t b. prefix ds cs \<and> stat_at d ds = Some (AFile p t b))"
  proof
    assume "\<exists>ds p t b. prefix ds cs \<and> stat_at d ds = Some (AFile p t b)"
    then obtain ds p t b ys where f: "stat_at d ds = Some (AFile p t b)" and cs: "cs = ds @ ys"
      by (auto simp: prefix_def)
    show False
    proof (cases "ys = []")
      case True
      with assms f cs show False by (simp add: is_dir_at_def)
    next
      case False
      from assms cs have "stat_at d (ds @ ys) \<noteq> None" by (auto simp: is_dir_at_def)
      from stat_at_prefix_dir[OF this False] f show False by (simp add: is_dir_at_def)
    qed
  qed
  then have "mkdir_all perm cs d \<noteq> None" unfolding mkdir_all_ok .
  then show ?thesis by auto
qed

lemma put_file_existing:
  assumes "is_file_at d cs" and "is_dir_at d ps"
  shows "\<exists>d'. put_file perm bytes cs d = Some d'"
proof -
  from assms(2) have root: "is_dir d"
    by (cases d; cases ps) (auto simp: is_dir_at_def)
  with assms(1) have ne: "cs \<noteq> []"
    by (cases d) (auto simp: is_file_at_def)
  then have cs: "cs = butlast cs @ [last cs]" by simp
  from assms(1) have "stat_at d (butlast cs @ [last cs]) \<noteq> None"
    unfolding cs[symmetric] by (auto simp: is_file_at_def)
  from stat_at_prefix_dir[OF this] have "is_dir_at d (butlast cs)" by simp
  with assms(1) ne have "put_file perm bytes cs d \<noteq> None"
    unfolding put_file_ok by (auto simp: is_file_at_def is_dir_at_def)
  then show ?thesis by auto
qed

lemma entry_done_extends:
  "entry_done cwd opts outputDir absOutputDir f d \<Longrightarrow> extends d d' \<Longrightarrow>
   entry_done cwd opts outputDir absOutputDir f d'"
  unfolding entry_done_def extends_def by (auto split: if_splits)

lemma entry_done_Overwrite [simp]:
  "entry_done cwd (opts\<lparr>Overwrite := b\<rparr>) outputDir absOutputDir f d =
   entry_done cwd opts outputDir absOutputDir f d"
  by (simp add: entry_done_def entry_skipped_def entry_dest_def)

lemma WriteFile_is_file:
  assumes "WriteFile cwd path perm bytes d = Some d'"
  shows "\<exists>ls. locate cwd path = Some ls \<and> is_file_at d' ls"
proof -
  from assms obtain ls where ls: "locate cwd path = Some ls" and p: "put_file perm bytes ls d = Some d'"
    by (auto simp: WriteFile_def split: option.splits)
  from put_file_stat[OF p, of ls] have "is_file_at d' ls"
    by (auto simp: is_file_at_def split: option.splits attr.splits)
  with ls show ?thesis by blast
qed

lemma MkdirAll_is_dir:
  assumes "MkdirAll cwd path perm d = Some d'"
  shows "\<exists>ls. locate cwd path = Some ls \<and> is_dir_at d' ls"
proof -
  from assms obtain ls where ls: "locate cwd path = Some ls"
    by (auto simp: MkdirAll_def split: option.splits)
  from MkdirAll_stat[OF assms] have "is_dir_at d' ls"
    by (auto simp: Stat_def ls stat_at_def is_dir_at_def)
  with ls show ?thesis by blast
qed

lemma entry_done_after:
  assumes "unzip_entry cwd opts outputDir absOutputDir f w = (None, w')"
  shows "entry_done cwd opts outputDir absOutputDir f (w_disk w')"
proof (cases "entry_skipped opts f")
  case True
  then show ?thesis by (simp add: entry_done_def)
next
  case False
  let ?dest = "entry_dest opts outputDir f"
  from assms False have ins: "inside_root cwd absOutputDir ?dest"
    unfolding unzip_entry_unfold by (auto split: if_splits)
  show ?thesis
  proof (cases "f_IsDir f")
    case True
    with assms False ins obtain d where m: "MkdirAll cwd ?dest (f_Mode f) (w_disk w) = Some d"
      and w': "w' = w\<lparr>w_disk := d\<rparr>"
      unfolding unzip_entry_unfold by (auto split: option.splits)
    from MkdirAll_is_dir[OF m] True ins show ?thesis
      by (auto simp: entry_done_def w')
  next
    case nd: False
    with assms False ins obtain w1 d where e: "extractFile cwd f ?dest (Overwrite opts) w = (None, w1)"
      and c: "Chtimes cwd ?dest (f_Modified f) (w_disk w1) = Some d" and w': "w' = w1\<lparr>w_disk := d\<rparr>"
      unfolding unzip_entry_unfold by (auto split: option.splits prod.splits)
    from extractFile_ok[OF e] obtain bytes d1 d2 where b: "f_Payload f = Content bytes"
      and mk: "MkdirAll cwd (Dir ?dest) 493 (w_disk w) = Some d1"
      and wf: "WriteFile cwd ?dest (f_Mode f) bytes d1 = Some d2"
      and w1: "w_disk w1 = d2"
      by auto
    from MkdirAll_is_dir[OF mk] obtain ps where ps: "locate cwd (Dir ?dest) = Some ps" "is_dir_at d1 ps"
      by blast
    from WriteFile_is_file[OF wf] obtain ls where ls: "locate cwd ?dest = Some ls" "is_file_at d2 ls"
      by blast
    have x: "extends d1 d" 
      using WriteFile_extends[OF wf] Chtimes_extends[OF c[unfolded w1]] by (rule extends_trans)
    have y: "extends d2 d"
      using Chtimes_extends[OF c[unfolded w1]] .
    from x ps have "is_dir_at d ps" by (simp add: extends_def)
    moreover from y ls have "is_file_at d ls" by (simp add: extends_def)
    ultimately show ?thesis
      using ins nd b ps ls by (auto simp: entry_done_def w')
  qed
qed

lemma unzip_loop_done:
  "unzip_loop cwd opts outputDir absOutputDir fs w = (None, w') \<Longrightarrow>
   \<forall>f \<in> set fs. entry_done cwd opts outputDir absOutputDir f (w_disk w')"
proof (induction fs arbitrary: w)
  case Nil
  then show ?case by simp
next
  case (Cons f fs)
  obtain r1 w1 where s: "unzip_entry cwd opts outputDir absOutputDir f w = (r1, w1)"
    by (cases "unzip_entry cwd opts outputDir absOutputDir f w")
  with Cons.prems have r1: "r1 = None" and rest: "unzip_loop cwd opts outputDir absOutputDir fs w1 = (None, w')"
    by (auto split: option.splits)
  from entry_done_after[OF s[unfolded r1]] unzip_loop_extends[OF rest]
  have "entry_done cwd opts outputDir absOutputDir f (w_disk w')"
    by (rule entry_done_extends)
  with Cons.IH[OF rest] show ?case by simp
qed

lemma unzip_entry_again:
  assumes dn: "entry_done cwd opts outputDir absOutputDir f (w_disk w)"
  shows "if Overwrite opts \<or> entry_skipped opts f \<or> f_IsDir f
         then \<exists>w'. unzip_entry cwd opts outputDir absOutputDir f w = (None, w')
         else unzip_entry cwd opts outputDir absOutputDir f w =
                (Some (ErrFileExists (entry_dest opts outputDir f)), w)"
proof (cases "entry_skipped opts f")
  case True
  then show ?thesis by (simp add: unzip_entry_unfold)
next
  case False
  let ?dest = "entry_dest opts outputDir f"
  from dn False have ins: "inside_root cwd absOutputDir ?dest"
    by (simp add: entry_done_def)
  from dn False obtain ls where ls: "locate cwd ?dest = Some ls"
    and k: "if f_IsDir f then is_dir_at (w_disk w) ls
          else (\<exists>bytes. f_Payload f = Content bytes) \<and> is_file_at (w_disk w) ls \<and>
               (\<exists>ps. locate cwd (Dir ?dest) = Some ps \<and> is_dir_at (w_disk w) ps)"
    by (auto simp: entry_done_def)
  show ?thesis
  proof (cases "f_IsDir f")
    case True
    with k have "is_dir_at (w_disk w) ls" by simp
    from mkdir_all_existing[OF this] obtain d where "MkdirAll cwd ?dest (f_Mode f) (w_disk w) = Some d"
      by (auto simp: MkdirAll_def ls)
    with True False ins show ?thesis by (simp add: unzip_entry_unfold)
  next
    case nd: False
    with k obtain bytes ps where b: "f_Payload f = Content bytes" and fl: "is_file_at (w_disk w) ls"
      and ps: "locate cwd (Dir ?dest) = Some ps" and pd: "is_dir_at (w_disk w) ps"
      by auto
    show ?thesis
    proof (cases "Overwrite opts")
      case False
      from fl have "Stat cwd ?dest (w_disk w) \<noteq> None"
        by (auto simp: Stat_def ls is_file_at_def stat_at_def)
      with False nd \<open>\<not> entry_skipped opts f\<close> ins show ?thesis
        by (simp add: unzip_entry_unfold extractFile_def)
    next
      case True
      from mkdir_all_existing[OF pd] obtain d1 where mk: "MkdirAll cwd (Dir ?dest) 493 (w_disk w) = Some d1"
        by (auto simp: MkdirAll_def ps)
      from MkdirAll_extends[OF mk] fl pd have "is_file_at d1 ls" "is_dir_at d1 ps"
        by (simp_all add: extends_def)
      from put_file_existing[OF this] obtain d2 where wf: "WriteFile cwd ?dest (f_Mode f) bytes d1 = Some d2"
        by (auto simp: WriteFile_def ls)
      from WriteFile_is_file[OF wf] ls have "stat_at d2 ls \<noteq> None"
        by (auto simp: is_file_at_def)
      then obtain d3 where c: "Chtimes cwd ?dest (f_Modified f) d2 = Some d3"
        using chtimes_ok[of "f_Modified f" ls d2] by (auto simp: Chtimes_def ls)
      from True mk wf b have "extractFile cwd f ?dest (Overwrite opts) w =
          (None, \<lparr>w_disk = d2, w_sink = w_sink w @ [''  inflating: '' @ ?dest @ nl]\<rparr>)"
        by (simp add: extractFile_def)
      with c True nd \<open>\<not> entry_skipped opts f\<close> ins show ?thesis
        by (simp add: unzip_entry_unfold)
    qed
  qed
qed

lemma unzip_loop_again_overwrite:
  "\<forall>f \<in> set fs. entry_done cwd opts outputDir absOutputDir f (w_disk w) \<Longrightarrow> Overwrite opts \<Longrightarrow>
   \<exists>w'. unzip_loop cwd opts outputDir absOutputDir fs w = (None, w')"
proof (induction fs arbitrary: w)
  case Nil
  then show ?case by simp
next
  case (Cons f fs)
  from Cons.prems have "entry_done cwd opts outputDir absOutputDir f (w_disk w)" by simp
  from unzip_entry_again[OF this] Cons.prems(2)
  obtain w1 where s: "unzip_entry cwd opts outputDir absOutputDir f w = (None, w1)" by auto
  from unzip_entry_extends[OF s] Cons.prems(1)
  have "\<forall>f \<in> set fs. entry_done cwd opts outputDir absOutputDir f (w_disk w1)"
    by (auto intro: entry_done_extends)
  from Cons.IH[OF this Cons.prems(2)] s show ?case by simp
qed

lemma unzip_loop_again_collision:
  "\<forall>f \<in> set fs. entry_done cwd opts outputDir absOutputDir f (w_disk w) \<Longrightarrow> \<not> Overwrite opts \<Longrightarrow>
   \<exists>f \<in> set fs. \<not> entry_skipped opts f \<and> \<not> f_IsDir f \<Longrightarrow>
   \<exists>f \<in> set fs. \<not> entry_skipped opts f \<and> \<not> f_IsDir f \<and>
      (\<exists>w'. unzip_loop cwd opts outputDir absOutputDir fs w =
               (Some (ErrFileExists (entry_dest opts outputDir f)), w'))"
proof (induction fs arbitrary: w)
  case Nil
  then show ?case by simp
next
  case (Cons f fs)
  from Cons.prems have dn: "entry_done cwd opts outputDir absOutputDir f (w_disk w)" by simp
  note again = unzip_entry_again[OF dn]
  show ?case
  proof (cases "entry_skipped opts f \<or> f_IsDir f")
    case True
    with again obtain w1 where s: "unzip_entry cwd opts outputDir absOutputDir f w = (None, w1)"
      by auto
    from unzip_entry_extends[OF s] Cons.prems(1)
    have 1: "\<forall>f \<in> set fs. entry_done cwd opts outputDir absOutputDir f (w_disk w1)"
      by (auto intro: entry_done_extends)
    from Cons.prems(3) True have 3: "\<exists>f \<in> set fs. \<not> entry_skipped opts f \<and> \<not> f_IsDir f" by auto
    from Cons.IH[OF 1 Cons.prems(2) 3] s show ?thesis by auto
  next
    case False
    with again Cons.prems(2)
    have "unzip_entry cwd opts outputDir absOutputDir f w =
            (Some (ErrFileExists (entry_dest opts outputDir f)), w)" by simp
    with False show ?thesis by auto
  qed
qed

lemma attr_of_File: "attr_of z = AFile p t b \<longleftrightarrow> z = File p t b"
  by (cases z) auto

lemma unzip_entry_file_result:
  assumes "unzip_entry cwd opts outputDir absOutputDir f w = (None, w')"
    and "\<not> entry_skipped opts f" and "\<not> f_IsDir f"
  shows "\<exists>bytes p. f_Payload f = Content bytes \<and>
           map_option attr_of (Stat cwd (entry_dest opts outputDir f) (w_disk w')) =
             Some (AFile p (f_Modified f) bytes)"
proof -
  let ?dest = "entry_dest opts outputDir f"
  from assms obtain w1 d where e: "extractFile cwd f ?dest (Overwrite opts) w = (None, w1)"
    and c: "Chtimes cwd ?dest (f_Modified f) (w_disk w1) = Some d" and w': "w' = w1\<lparr>w_disk := d\<rparr>"
    unfolding unzip_entry_unfold by (auto split: if_splits option.splits prod.splits)
  from extractFile_ok[OF e] obtain bytes d1 d2 where b: "f_Payload f = Content bytes"
    and wf: "WriteFile cwd ?dest (f_Mode f) bytes d1 = Some d2" and w1: "w_disk w1 = d2"
    by auto
  from WriteFile_Chtimes_stat[OF wf c[unfolded w1]] b show ?thesis
    by (auto simp: w')
qed

text \<open>
  Claim C3. (1) When a file entry reaches \<^verbatim>\<open>extractFile\<close> (it is not skipped and passes the
  path-traversal test), \<^verbatim>\<open>Overwrite\<close> is false and \<^verbatim>\<open>os.Stat\<close> finds something at the
  destination path, the extraction stops there with the "file exists" error that names
  the destination path, and the disk is as before the entry. (2) With \<^verbatim>\<open>Overwrite\<close> true,
  a regular file at the destination, a directory at its parent path and a readable
  content, the entry is extracted and the file has the bytes of the entry. (3) After a
  run of \<^verbatim>\<open>Unzip\<close> that succeeded (and left the archive file readable as before), a
  second run with \<^verbatim>\<open>Overwrite\<close> true succeeds, and a second run with \<^verbatim>\<open>Overwrite\<close> false
  fails with a "file exists" error as soon as the archive has a file entry that is not
  skipped.
\<close>

theorem Unzip_overwrite:
  "(\<not> entry_skipped opts f \<and> inside_root cwd absOutputDir (entry_dest opts outputDir f) \<and> \<not> f_IsDir f \<and>
    \<not> Overwrite opts \<and> Stat cwd (entry_dest opts outputDir f) (w_disk w) \<noteq> None
      \<longrightarrow> unzip_loop cwd opts outputDir absOutputDir (f # rest) w =
            (Some (ErrFileExists (entry_dest opts outputDir f)), w)) \<and>
   (\<not> entry_skipped opts f \<and> inside_root cwd absOutputDir (entry_dest opts outputDir f) \<and> \<not> f_IsDir f \<and>
    Overwrite opts \<and> f_Payload f = Content bytes \<and>
    (\<exists>p t b. Stat cwd (entry_dest opts outputDir f) (w_disk w) = Some (File p t b)) \<and>
    (\<exists>p es. Stat cwd (Dir (entry_dest opts outputDir f)) (w_disk w) = Some (Directory p es))
      \<longrightarrow> (\<exists>w'. unzip_entry cwd opts outputDir absOutputDir f w = (None, w') \<and>
                ReadFile cwd (entry_dest opts outputDir f) (w_disk w') = Some bytes)) \<and>
   (Unzip dec cwd zipPath opts w = (None, w1) \<and>
    OpenReader dec cwd zipPath (w_disk w1) = OpenReader dec cwd zipPath (w_disk w)
      \<longrightarrow> (\<exists>w2. Unzip dec cwd zipPath (opts\<lparr>Overwrite := True\<rparr>) w1 = (None, w2)) \<and>
          (\<forall>files. OpenReader dec cwd zipPath (w_disk w) = Some files \<and>
                   (\<exists>f \<in> set files. \<not> entry_skipped opts f \<and> \<not> f_IsDir f)
             \<longrightarrow> (\<exists>p w2. Unzip dec cwd zipPath (opts\<lparr>Overwrite := False\<rparr>) w1 =
                           (Some (ErrFileExists p), w2))))"
proof (intro conjI impI)
  let ?dest = "entry_dest opts outputDir f"
  assume "\<not> entry_skipped opts f \<and> inside_root cwd absOutputDir ?dest \<and> \<not> f_IsDir f \<and>
    \<not> Overwrite opts \<and> Stat cwd ?dest (w_disk w) \<noteq> None"
  then show "unzip_loop cwd opts outputDir absOutputDir (f # rest) w = (Some (ErrFileExists ?dest), w)"
    by (simp add: unzip_entry_unfold extractFile_def)
next
  let ?dest = "entry_dest opts outputDir f"
  assume a: "\<not> entry_skipped opts f \<and> inside_root cwd absOutputDir ?dest \<and> \<not> f_IsDir f \<and>
    Overwrite opts \<and> f_Payload f = Content bytes \<and>
    (\<exists>p t b. Stat cwd ?dest (w_disk w) = Some (File p t b)) \<and>
    (\<exists>p es. Stat cwd (Dir ?dest) (w_disk w) = Some (Directory p es))"
  then obtain ls ps where ls: "locate cwd ?dest = Some ls" and fl: "is_file_at (w_disk w) ls"
    and ps: "locate cwd (Dir ?dest) = Some ps" and pd: "is_dir_at (w_disk w) ps"
    by (auto simp: Stat_def is_file_at_def is_dir_at_def stat_at_def split: option.splits)
  with a have "entry_done cwd opts outputDir absOutputDir f (w_disk w)"
    by (auto simp: entry_done_def)
  from unzip_entry_again[OF this] a obtain w' where
    s: "unzip_entry cwd opts outputDir absOutputDir f w = (None, w')" by auto
  from unzip_entry_file_result[OF s] a
  obtain p where "map_option attr_of (Stat cwd ?dest (w_disk w')) = Some (AFile p (f_Modified f) bytes)"
    by auto
  then have "ReadFile cwd ?dest (w_disk w') = Some bytes"
    by (auto simp: ReadFile_def Stat_def attr_of_File split: option.splits)
  with s show "\<exists>w'. unzip_entry cwd opts outputDir absOutputDir f w = (None, w') \<and>
                ReadFile cwd ?dest (w_disk w') = Some bytes" by blast
next
  let ?od = "if OutputDir opts = [] then ''.'' else OutputDir opts"
  assume a: "Unzip dec cwd zipPath opts w = (None, w1) \<and>
    OpenReader dec cwd zipPath (w_disk w1) = OpenReader dec cwd zipPath (w_disk w)"
  then obtain files where o: "OpenReader dec cwd zipPath (w_disk w) = Some files"
    and l: "unzip_loop cwd opts ?od (Abs cwd ?od) files w = (None, w1)"
    by (auto simp: Unzip_def Let_def split: option.splits)
  from unzip_loop_done[OF l]
  have dn: "\<forall>f \<in> set files. entry_done cwd opts ?od (Abs cwd ?od) f (w_disk w1)" .
  from a o have o1: "OpenReader dec cwd zipPath (w_disk w1) = Some files" by simp
  {
    have "\<forall>f \<in> set files. entry_done cwd (opts\<lparr>Overwrite := True\<rparr>) ?od (Abs cwd ?od) f (w_disk w1)"
      using dn by simp
    from unzip_loop_again_overwrite[OF this]
    obtain w2 where "unzip_loop cwd (opts\<lparr>Overwrite := True\<rparr>) ?od (Abs cwd ?od) files w1 = (None, w2)"
      by auto
    with o1 show "\<exists>w2. Unzip dec cwd zipPath (opts\<lparr>Overwrite := True\<rparr>) w1 = (None, w2)"
      by (auto simp: Unzip_def Let_def)
  }
  show "\<forall>files. OpenReader dec cwd zipPath (w_disk w) = Some files \<and>
                   (\<exists>f \<in> set files. \<not> entry_skipped opts f \<and> \<not> f_IsDir f)
             \<longrightarrow> (\<exists>p w2. Unzip dec cwd zipPath (opts\<lparr>Overwrite := False\<rparr>) w1 =
                           (Some (ErrFileExists p), w2))"
  proof (intro allI impI)
    fix files'
    assume b: "OpenReader dec cwd zipPath (w_disk w) = Some files' \<and>
                   (\<exists>f \<in> set files'. \<not> entry_skipped opts f \<and> \<not> f_IsDir f)"
    with o have eq: "files' = files" by simp
    have 1: "\<forall>f \<in> set files. entry_done cwd (opts\<lparr>Overwrite := False\<rparr>) ?od (Abs cwd ?od) f (w_disk w1)"
      using dn by simp
    have 2: "\<exists>f \<in> set files. \<not> entry_skipped (opts\<lparr>Overwrite := False\<rparr>) f \<and> \<not> f_IsDir f"
      using b eq by (simp add: entry_skipped_def)
    from unzip_loop_again_collision[OF 1 _ 2]
    obtain p w2 where "unzip_loop cwd (opts\<lparr>Overwrite := False\<rparr>) ?od (Abs cwd ?od) files w1 =
        (Some (ErrFileExists p), w2)"
      by auto
    with o1 show "\<exists>p w2. Unzip dec cwd zipPath (opts\<lparr>Overwrite := False\<rparr>) w1 =
                           (Some (ErrFileExists p), w2)"
      by (auto simp: Unzip_def Let_def)
  qed
qed

theorem Unzip_overwrite_witness:
  "(\<exists>w2. Unzip demo_dec ''/'' ''/tmp/a.zip''
       \<lparr>OutputDir = ''/tmp/out'', Overwrite = True, JunkPaths = False, FilePatterns = []\<rparr>
       (snd (Unzip demo_dec ''/'' ''/tmp/a.zip''
          \<lparr>OutputDir = ''/tmp/out'', Overwrite = False, JunkPaths = False, FilePatterns = []\<rparr> demo_zworld))
     = (None, w2)) \<and>
   (\<exists>p w2. Unzip demo_dec ''/'' ''/tmp/a.zip''
       \<lparr>OutputDir = ''/tmp/out'', Overwrite = False, JunkPaths = False, FilePatterns = []\<rparr>
       (snd (Unzip demo_dec ''/'' ''/tmp/a.zip''
          \<lparr>OutputDir = ''/tmp/out'', Overwrite = False, JunkPaths = False, FilePatterns = []\<rparr> demo_zworld))
     = (Some (ErrFileExists p), w2))"
proof -
  let ?o = "\<lparr>OutputDir = ''/tmp/out'', Overwrite = False, JunkPaths = False, FilePatterns = []\<rparr>"
  let ?r = "Unzip demo_dec ''/'' ''/tmp/a.zip'' ?o demo_zworld"
  have e: "fst ?r = None" by code_simp
  then have r: "?r = (None, snd ?r)" by (metis prod.collapse)
  have o: "OpenReader demo_dec ''/'' ''/tmp/a.zip'' (w_disk demo_zworld) = Some demo_archive"
    by code_simp
  have o1: "OpenReader demo_dec ''/'' ''/tmp/a.zip'' (w_disk (snd ?r)) = Some demo_archive"
    by code_simp
  have m: "demo_archive ! 1 \<in> set demo_archive" by (simp add: demo_archive_def)
  have k: "\<not> entry_skipped ?o (demo_archive ! 1) \<and> \<not> f_IsDir (demo_archive ! 1)"
    by (simp add: entry_skipped_def demo_archive_def)
  have t: "?o\<lparr>Overwrite := True\<rparr> = \<lparr>OutputDir = ''/tmp/out'', Overwrite = True, JunkPaths = False, FilePatterns = []\<rparr>"
    "?o\<lparr>Overwrite := False\<rparr> = ?o" by simp_all
  from Unzip_overwrite[where opts = ?o and cwd = "''/''" and dec = demo_dec and zipPath = "''/tmp/a.zip''"
      and w = demo_zworld and ?w1.0 = "snd ?r"] r o o1
  have 1: "\<exists>w2. Unzip demo_dec ''/'' ''/tmp/a.zip'' (?o\<lparr>Overwrite := True\<rparr>) (snd ?r) = (None, w2)"
    and 2: "\<forall>files. OpenReader demo_dec ''/'' ''/tmp/a.zip'' (w_disk demo_zworld) = Some files \<and>
                   (\<exists>f \<in> set files. \<not> entry_skipped ?o f \<and> \<not> f_IsDir f)
             \<longrightarrow> (\<exists>p w2. Unzip demo_dec ''/'' ''/tmp/a.zip'' (?o\<lparr>Overwrite := False\<rparr>) (snd ?r) =
                           (Some (ErrFileExists p), w2))"
    by simp_all
  from 2 o m k have 3: "\<exists>p w2. Unzip demo_dec ''/'' ''/tmp/a.zip'' (?o\<lparr>Overwrite := False\<rparr>) (snd ?r) =
                           (Some (ErrFileExists p), w2)"
    by blast
  from 1 3 show ?thesis unfolding t by blast
qed

subsection \<open>Archiving and extracting again\<close>

lemma walk_invariant_ok_aux:
  assumes rf: "\<And>s. R s s"
    and tr: "\<And>a b c. R a b \<Longrightarrow> R b c \<Longrightarrow> R a c"
  shows "(\<forall>p n e s r s'. walkFn p n e s = (r, s') \<longrightarrow> went_on r \<longrightarrow> R s s') \<longrightarrow>
           walk walkFn path n st = (r, st') \<longrightarrow> went_on r \<longrightarrow> R st st'"
    and "(\<forall>p n e s r s'. walkFn p n e s = (r, s') \<longrightarrow> went_on r \<longrightarrow> R s s') \<longrightarrow>
           walk_names walkFn path es st = (r, st') \<longrightarrow> went_on r \<longrightarrow> R st st'"
proof (induction walkFn path n st and walkFn path es st arbitrary: r st' and r st'
    rule: walk_walk_names.induct)
  case (1 walkFn path p t d st)
  show ?case by auto
next
  case (2 walkFn path p es st)
  show ?case
  proof (intro impI)
    assume step: "\<forall>p n e s r s'. walkFn p n e s = (r, s') \<longrightarrow> went_on r \<longrightarrow> R s s'"
      and run: "walk walkFn path (Directory p es) st = (r, st')" and ok: "went_on r"
    obtain r1 s1 where f: "walkFn path (Directory p es) None st = (r1, s1)"
      by (cases "walkFn path (Directory p es) None st")
    show "R st st'"
    proof (cases r1)
      case None
      then have a: "R st s1" using f step by (auto simp: went_on_def)
      from None run f have "walk_names walkFn path (sort_key fst es) s1 = (r, st')" by simp
      with "2.IH"[OF f[symmetric] None] step ok have "R s1 st'" by blast
      with a show ?thesis by (rule tr)
    next
      case (Some e)
      with run f have "r = r1" "st' = s1" by simp_all
      with f step ok show ?thesis by blast
    qed
  qed
next
  case (3 walkFn path st)
  show ?case by (auto intro: rf)
next
  case (4 walkFn path name child rest st)
  show ?case
  proof (intro impI)
    assume step: "\<forall>p n e s r s'. walkFn p n e s = (r, s') \<longrightarrow> went_on r \<longrightarrow> R s s'"
      and run: "walk_names walkFn path ((name, child) # rest) st = (r, st')" and ok: "went_on r"
    obtain r1 s1 where f: "walk walkFn (Join [path, name]) child st = (r1, s1)"
      by (cases "walk walkFn (Join [path, name]) child st")
    have a: "went_on r1 \<Longrightarrow> R st s1" using f step "4.IH"(1) by blast
    show "R st st'"
    proof (cases r1)
      case None
      with run f have "walk_names walkFn path rest s1 = (r, st')" by simp
      with "4.IH"(2)[OF f[symmetric] None] step ok have "R s1 st'" by blast
      with a None show ?thesis by (auto simp: went_on_def intro: tr)
    next
      case (Some e)
      show ?thesis
      proof (cases "\<not> is_dir child \<or> e \<noteq> SkipDir")
        case True
        with run f Some have "r = r1" "st' = s1" by simp_all
        with a ok show ?thesis by simp
      next
        case False
        with run f Some have "walk_names walkFn path rest s1 = (r, st')" by simp
        with "4.IH"(3)[OF f[symmetric] Some False] step ok have "R s1 st'" by blast
        moreover from False Some have "went_on r1" by (simp add: went_on_def)
        ultimately show ?thesis using a by (auto intro: tr)
      qed
    qed
  qed
qed

lemma writeFileToZip_from_disk:
  assumes "writeFileToZip flate cwd disk path info opts st = (None, st')" and "\<not> is_dir info"
  shows "grows (from_disk cwd disk) st st'"
  using assms
  by (auto simp: writeFileToZip_def entry_of_def Let_def grows_def from_disk_def ReadFile_def ToSlash_def
      split: if_splits option.splits node.splits)

lemma walkFn_from_disk:
  assumes "addToZip_walkFn flate cwd disk opts p fi e st = (r, st')" and "went_on r"
  shows "grows (from_disk cwd disk) st st'"
  using assms writeFileToZip_from_disk[of flate cwd disk p fi opts st st']
  by (auto simp: addToZip_walkFn_def went_on_def grows_refl split: option.splits if_splits prod.splits)

lemma addToZip_from_disk:
  assumes "addToZip flate cwd disk path opts st = (None, st')"
  shows "grows (from_disk cwd disk) st st'"
proof -
  have w: "grows (from_disk cwd disk) st s'"
    if "walk (addToZip_walkFn flate cwd disk opts) path n st = (r, s')" "went_on r" for n r s'
  proof -
    have "(\<forall>p n e s r s'. addToZip_walkFn flate cwd disk opts p n e s = (r, s') \<longrightarrow> went_on r \<longrightarrow>
              grows (from_disk cwd disk) s s') \<longrightarrow>
           walk (addToZip_walkFn flate cwd disk opts) path n st = (r, s') \<longrightarrow> went_on r \<longrightarrow>
              grows (from_disk cwd disk) st s'"
    proof (rule walk_invariant_ok_aux(1))
      show "grows (from_disk cwd disk) s s" for s by (rule grows_refl)
      show "grows (from_disk cwd disk) a b \<Longrightarrow> grows (from_disk cwd disk) b c \<Longrightarrow>
            grows (from_disk cwd disk) a c" for a b c by (rule grows_trans)
    qed
    with that show ?thesis by (blast intro: walkFn_from_disk)
  qed
  show ?thesis
  proof (cases "Stat cwd path disk")
    case None
    with assms show ?thesis by (simp add: addToZip_def)
  next
    case (Some info)
    show ?thesis
    proof (cases "is_dir info")
      case True
      show ?thesis
      proof (cases "Recursive opts")
        case False
        with assms Some True show ?thesis by (auto simp: addToZip_def grows_sink)
      next
        case rec: True
        obtain r s1 where wk: "walk (addToZip_walkFn flate cwd disk opts) path info st = (r, s1)"
          by (cases "walk (addToZip_walkFn flate cwd disk opts) path info st")
        with assms Some True rec have "went_on r" "st' = s1"
          by (auto simp: addToZip_def Walk_def went_on_def split: option.splits walk_error.splits)
        with w[OF wk] show ?thesis by simp
      qed
    next
      case False
      with assms Some writeFileToZip_from_disk[of flate cwd disk path info opts st st']
      show ?thesis by (auto simp: addToZip_def grows_refl split: if_splits)
    qed
  qed
qed

lemma zip_loop_from_disk:
  "zip_loop flate cwd disk files opts st = (None, st') \<Longrightarrow> grows (from_disk cwd disk) st st'"
proof (induction files arbitrary: st)
  case Nil
  then show ?case by (simp add: grows_refl)
next
  case (Cons name files)
  obtain e1 s1 where a: "addToZip flate cwd disk name opts st = (e1, s1)"
    by (cases "addToZip flate cwd disk name opts st")
  with Cons.prems have e1: "e1 = None" and rest: "zip_loop flate cwd disk files opts s1 = (None, st')"
    by (auto split: option.splits)
  from addToZip_from_disk[OF a[unfolded e1]] Cons.IH[OF rest] show ?case by (rule grows_trans)
qed

lemma addToZip_names:
  assumes "addToZip flate cwd disk path opts st = (None, st')"
  shows "\<exists>new. z_files st' = z_files st @ new \<and>
           map f_Name new = map ToSlash (source_names cwd disk opts path)"
proof (cases "Stat cwd path disk")
  case None
  with assms show ?thesis by (simp add: addToZip_def)
next
  case (Some info)
  show ?thesis
  proof (cases "is_dir info")
    case True
    show ?thesis
    proof (cases "Recursive opts")
      case False
      with assms Some True show ?thesis by (auto simp: addToZip_def source_names_def)
    next
      case rec: True
      obtain r s1 where wk: "walk (addToZip_walkFn flate cwd disk opts) path info st = (r, s1)"
        by (cases "walk (addToZip_walkFn flate cwd disk opts) path info st")
      from walk_walked(1)[of "addToZip_walkFn flate cwd disk opts" flate cwd disk opts path info st r s1] wk
      have a: "walked (spec_walk (ExcludePatterns opts) path info) r st s1" by blast
      from assms Some True rec wk have "r = None \<or> r = Some SkipDir" "st' = s1"
        by (auto simp: addToZip_def Walk_def split: option.splits walk_error.splits)
      with a Some True rec show ?thesis
        by (auto simp: walked_def source_names_def)
    qed
  next
    case False
    show ?thesis
    proof (cases "matchesAny path (ExcludePatterns opts)")
      case True
      with assms Some False show ?thesis by (auto simp: addToZip_def source_names_def)
    next
      case nm: False
      with assms Some False have "writeFileToZip flate cwd disk path info opts st = (None, st')"
        by (simp add: addToZip_def)
      from writeFileToZip_walked[OF this False] Some False nm show ?thesis
        by (auto simp: walked_def source_names_def)
    qed
  qed
qed

lemma zip_loop_names:
  "zip_loop flate cwd disk files opts st = (None, st') \<Longrightarrow>
   \<exists>new. z_files st' = z_files st @ new \<and>
     map f_Name new = map ToSlash (concat (map (source_names cwd disk opts) files))"
proof (induction files arbitrary: st)
  case Nil
  then show ?case by simp
next
  case (Cons name files)
  obtain e1 s1 where a: "addToZip flate cwd disk name opts st = (e1, s1)"
    by (cases "addToZip flate cwd disk name opts st")
  with Cons.prems have e1: "e1 = None" and rest: "zip_loop flate cwd disk files opts s1 = (None, st')"
    by (auto split: option.splits)
  from addToZip_names[OF a[unfolded e1]] obtain n1 where
    n1: "z_files s1 = z_files st @ n1" "map f_Name n1 = map ToSlash (source_names cwd disk opts name)"
    by blast
  from Cons.IH[OF rest] obtain n2 where
    n2: "z_files st' = z_files s1 @ n2"
      "map f_Name n2 = map ToSlash (concat (map (source_names cwd disk opts) files))"
    by blast
  show ?case
    by (rule exI[of _ "n1 @ n2"]) (simp add: n1 n2)
qed

lemma MkdirAll_keeps_file:
  "MkdirAll cwd path perm d = Some d' \<Longrightarrow> stat_at d ls = Some (AFile p t b) \<Longrightarrow>
   stat_at d' ls = Some (AFile p t b)"
  by (auto simp: MkdirAll_def mkdir_all_stat split: option.splits)

lemma WriteFile_keeps_other:
  "WriteFile cwd path perm bytes d = Some d' \<Longrightarrow> locate cwd path \<noteq> Some ls \<Longrightarrow>
   stat_at d' ls = stat_at d ls"
  by (auto simp: WriteFile_def put_file_stat split: option.splits)

lemma Chtimes_keeps_other:
  "Chtimes cwd path t d = Some d' \<Longrightarrow> locate cwd path \<noteq> Some ls \<Longrightarrow>
   stat_at d' ls = stat_at d ls"
  by (auto simp: Chtimes_def chtimes_stat split: option.splits)

lemma MkdirAll_WriteFile_keeps_file:
  assumes "MkdirAll cwd dir perm d = Some d1" and "WriteFile cwd path perm' bytes d1 = Some d2"
    and "stat_at d ls = Some (AFile p t b)" and "locate cwd path \<noteq> Some ls"
  shows "stat_at d2 ls = Some (AFile p t b)"
  using MkdirAll_keeps_file[OF assms(1,3)] WriteFile_keeps_other[OF assms(2,4)] by simp

lemma extractFile_keeps_file:
  assumes "extractFile cwd f destPath overwrite w = (r, w')"
    and "stat_at (w_disk w) ls = Some (AFile p t b)" and "locate cwd destPath \<noteq> Some ls"
  shows "stat_at (w_disk w') ls = Some (AFile p t b)"
proof -
  note A = MkdirAll_keeps_file[OF _ assms(2)]
  note B = MkdirAll_WriteFile_keeps_file[OF _ _ assms(2,3)]
  from assms(1,2) show ?thesis
    by (auto simp: extractFile_def split: if_splits option.splits payload.splits intro: A B)
qed

lemma unzip_entry_keeps_file:
  assumes "unzip_entry cwd opts outputDir absOutputDir f w = (r, w')"
    and "stat_at (w_disk w) ls = Some (AFile p t b)"
    and "entry_skipped opts f \<or> f_IsDir f \<or> locate cwd (entry_dest opts outputDir f) \<noteq> Some ls"
  shows "stat_at (w_disk w') ls = Some (AFile p t b)"
proof -
  let ?dest = "entry_dest opts outputDir f"
  have e: "stat_at (w_disk w1) ls = Some (AFile p t b)"
    if "extractFile cwd f ?dest ow w = (r1, w1)" "locate cwd ?dest \<noteq> Some ls" for ow r1 w1
    using that(1) assms(2) that(2) by (rule extractFile_keeps_file)
  show ?thesis
  proof (cases "entry_skipped opts f \<or> \<not> inside_root cwd absOutputDir ?dest")
    case True
    with assms(1,2) show ?thesis unfolding unzip_entry_unfold by (auto split: if_splits)
  next
    case False
    show ?thesis
    proof (cases "f_IsDir f")
      case True
      with assms(1,2) False show ?thesis
        unfolding unzip_entry_unfold
        by (auto split: option.splits dest: MkdirAll_keeps_file)
    next
      case nd: False
      with assms(3) False have ne: "locate cwd ?dest \<noteq> Some ls" by auto
      obtain r1 w1 where x: "extractFile cwd f ?dest (Overwrite opts) w = (r1, w1)"
        by (cases "extractFile cwd f ?dest (Overwrite opts) w")
      note k = e[OF x ne]
      from assms(1) False nd x k ne show ?thesis
        unfolding unzip_entry_unfold
        by (auto split: option.splits dest: Chtimes_keeps_other)
    qed
  qed
qed

lemma unzip_loop_keeps_file:
  "unzip_loop cwd opts outputDir absOutputDir fs w = (r, w') \<Longrightarrow>
   stat_at (w_disk w) ls = Some (AFile p t b) \<Longrightarrow>
   \<forall>f \<in> set fs. entry_skipped opts f \<or> f_IsDir f \<or> locate cwd (entry_dest opts outputDir f) \<noteq> Some ls \<Longrightarrow>
   stat_at (w_disk w') ls = Some (AFile p t b)"
proof (induction fs arbitrary: w)
  case Nil
  then show ?case by simp
next
  case (Cons f fs)
  obtain r1 w1 where s: "unzip_entry cwd opts outputDir absOutputDir f w = (r1, w1)"
    by (cases "unzip_entry cwd opts outputDir absOutputDir f w")
  from Cons.prems(3) have "entry_skipped opts f \<or> f_IsDir f \<or> locate cwd (entry_dest opts outputDir f) \<noteq> Some ls"
    by simp
  from unzip_entry_keeps_file[OF s Cons.prems(2) this]
  have k: "stat_at (w_disk w1) ls = Some (AFile p t b)" .
  show ?case
  proof (cases r1)
    case None
    with Cons.prems(1) s have "unzip_loop cwd opts outputDir absOutputDir fs w1 = (r, w')" by simp
    from Cons.IH[OF this k] Cons.prems(3) show ?thesis by simp
  next
    case (Some e)
    with Cons.prems(1) s k show ?thesis by simp
  qed
qed

lemma unzip_loop_content:
  "unzip_loop cwd opts outputDir absOutputDir fs w = (None, w') \<Longrightarrow> i < length fs \<Longrightarrow>
   \<not> entry_skipped opts (fs ! i) \<Longrightarrow> \<not> f_IsDir (fs ! i) \<Longrightarrow>
   \<forall>j. i < j \<and> j < length fs \<longrightarrow>
      entry_skipped opts (fs ! j) \<or> f_IsDir (fs ! j) \<or>
      locate cwd (entry_dest opts outputDir (fs ! j)) \<noteq> locate cwd (entry_dest opts outputDir (fs ! i)) \<Longrightarrow>
   \<exists>bytes. f_Payload (fs ! i) = Content bytes \<and>
      ReadFile cwd (entry_dest opts outputDir (fs ! i)) (w_disk w') = Some bytes"
proof (induction fs arbitrary: w i)
  case Nil
  then show ?case by simp
next
  case (Cons f fs)
  obtain r1 w1 where s: "unzip_entry cwd opts outputDir absOutputDir f w = (r1, w1)"
    by (cases "unzip_entry cwd opts outputDir absOutputDir f w")
  with Cons.prems(1) have r1: "r1 = None" and rest: "unzip_loop cwd opts outputDir absOutputDir fs w1 = (None, w')"
    by (auto split: option.splits)
  show ?case
  proof (cases i)
    case 0
    let ?dest = "entry_dest opts outputDir f"
    from unzip_entry_file_result[OF s[unfolded r1]] Cons.prems(3,4) 0
    obtain bytes p where b: "f_Payload f = Content bytes"
      and st: "map_option attr_of (Stat cwd ?dest (w_disk w1)) = Some (AFile p (f_Modified f) bytes)"
      by auto
    then obtain ls where ls: "locate cwd ?dest = Some ls"
      and sa: "stat_at (w_disk w1) ls = Some (AFile p (f_Modified f) bytes)"
      by (auto simp: Stat_def stat_at_def split: option.splits)
    have "\<forall>g \<in> set fs. entry_skipped opts g \<or> f_IsDir g \<or> locate cwd (entry_dest opts outputDir g) \<noteq> Some ls"
    proof
      fix g assume "g \<in> set fs"
      then obtain k where k: "k < length fs" "g = fs ! k" by (auto simp: in_set_conv_nth)
      from Cons.prems(5)[rule_format, of "Suc k"] k 0 ls
      show "entry_skipped opts g \<or> f_IsDir g \<or> locate cwd (entry_dest opts outputDir g) \<noteq> Some ls"
        by auto
    qed
    from unzip_loop_keeps_file[OF rest sa this]
    have "ReadFile cwd ?dest (w_disk w') = Some bytes"
      by (auto simp: ReadFile_def Stat_def ls stat_at_File)
    with b 0 show ?thesis by simp
  next
    case (Suc k)
    have "\<forall>j. k < j \<and> j < length fs \<longrightarrow>
      entry_skipped opts (fs ! j) \<or> f_IsDir (fs ! j) \<or>
      locate cwd (entry_dest opts outputDir (fs ! j)) \<noteq> locate cwd (entry_dest opts outputDir (fs ! k))"
    proof (intro allI impI)
      fix j assume "k < j \<and> j < length fs"
      with Cons.prems(5)[rule_format, of "Suc j"] Suc
      show "entry_skipped opts (fs ! j) \<or> f_IsDir (fs ! j) \<or>
        locate cwd (entry_dest opts outputDir (fs ! j)) \<noteq> locate cwd (entry_dest opts outputDir (fs ! k))"
        by simp
    qed
    from Cons.IH[OF rest _ _ _ this, of ] Cons.prems(2,3,4) Suc show ?thesis by simp
  qed
qed

lemma Zip_written:
  assumes "Zip enc flate cwd zipPath files opts w = (err, w')" and "err \<noteq> Some ErrCreatingArchive"
  shows "\<exists>d1. WriteFile cwd zipPath 438 [] (w_disk w) = Some d1 \<and>
           ReadFile cwd zipPath (w_disk w') = Some (enc (zip_written flate cwd zipPath files opts w)) \<and>
           (err = None \<longrightarrow>
              (\<forall>f \<in> set (zip_written flate cwd zipPath files opts w). from_disk cwd d1 f) \<and>
              map f_Name (zip_written flate cwd zipPath files opts w) =
                map ToSlash (concat (map (source_names cwd d1 opts) files)))"
proof -
  let ?l = "if CompressionLevel opts < - 1 \<or> 9 < CompressionLevel opts then - 1 else CompressionLevel opts"
  let ?st0 = "\<lparr>z_level = ?l, z_files = [], z_sink = w_sink w\<rparr>"
  from assms obtain d1 where d1: "WriteFile cwd zipPath 438 [] (w_disk w) = Some d1"
    by (auto simp: Zip_def split: option.splits)
  then obtain cs where cs: "locate cwd zipPath = Some cs" and p1: "put_file 438 [] cs (w_disk w) = Some d1"
    by (auto simp: WriteFile_def split: option.splits)
  obtain e st where loop: "zip_loop flate cwd d1 files opts ?st0 = (e, st)"
    by (cases "zip_loop flate cwd d1 files opts ?st0")
  have zw: "zip_written flate cwd zipPath files opts w = z_files st"
    using d1 loop by (simp add: zip_written_def)
  from put_file_twice[OF p1] obtain d2 where p2: "put_file 438 (enc (z_files st)) cs d1 = Some d2"
    by blast
  from assms(1) d1 loop p2 cs have w': "w_disk w' = d2" and err: "err = e"
    by (auto simp: Zip_def Let_def WriteFile_def)
  from put_file_read[OF p2] have rd: "ReadFile cwd zipPath d2 = Some (enc (z_files st))"
    by (auto simp: ReadFile_def Stat_def cs)
  have "\<forall>f \<in> set (z_files st). from_disk cwd d1 f" if "e = None"
    using zip_loop_from_disk[OF loop[unfolded that]] by (auto simp: grows_def)
  moreover have "map f_Name (z_files st) = map ToSlash (concat (map (source_names cwd d1 opts) files))"
    if "e = None"
    using zip_loop_names[OF loop[unfolded that]] by auto
  ultimately show ?thesis using d1 rd unfolding w' zw err by blast
qed

text \<open>
  Claim C2, as amended. Let \<^verbatim>\<open>Zip\<close> succeed, let the reader decode the archive that was
  written to the entries that were written, and let \<^verbatim>\<open>Unzip\<close> with empty \<^verbatim>\<open>FilePatterns\<close>
  and without \<^verbatim>\<open>JunkPaths\<close> succeed. Then the archive has, in order, one entry for every
  regular file that the specification lists for the source paths; and for every entry
  whose destination no later entry of the archive shares, the file at the output
  directory joined with the entry name has the very bytes that the source file named by
  the entry had when it was archived (which are the bytes it had before \<^verbatim>\<open>Zip\<close> ran,
  unless the source is the archive file itself).

  The claim as stated does not hold: extraction does not succeed for every set of
  sources. A source given as \<^verbatim>\<open>../hello.txt\<close> is archived under that name, and the
  path-traversal test of \<^verbatim>\<open>Unzip\<close> then refuses the entry, so that nothing is extracted
  (the counterexample below).
\<close>

theorem Zip_Unzip_roundtrip:
  assumes zip: "Zip enc flate cwd zipPath files zopts w0 = (None, w1)"
    and codec: "dec (enc (zip_written flate cwd zipPath files zopts w0)) =
                  Some (zip_written flate cwd zipPath files zopts w0)"
    and unzip: "Unzip dec cwd zipPath uopts w1 = (None, w2)"
    and nofilter: "FilePatterns uopts = []" and nojunk: "\<not> JunkPaths uopts"
  shows "map f_Name (zip_written flate cwd zipPath files zopts w0) =
           map ToSlash (concat (map (source_names cwd (zip_disk cwd zipPath w0) zopts) files)) \<and>
    (\<forall>i < length (zip_written flate cwd zipPath files zopts w0).
       (\<forall>j. i < j \<and> j < length (zip_written flate cwd zipPath files zopts w0) \<longrightarrow>
          locate cwd (Join [if OutputDir uopts = [] then ''.'' else OutputDir uopts,
                            f_Name (zip_written flate cwd zipPath files zopts w0 ! j)]) \<noteq>
          locate cwd (Join [if OutputDir uopts = [] then ''.'' else OutputDir uopts,
                            f_Name (zip_written flate cwd zipPath files zopts w0 ! i)])) \<longrightarrow>
       (\<exists>bytes.
          ReadFile cwd (f_Name (zip_written flate cwd zipPath files zopts w0 ! i))
            (zip_disk cwd zipPath w0) = Some bytes \<and>
          ReadFile cwd (Join [if OutputDir uopts = [] then ''.'' else OutputDir uopts,
                              f_Name (zip_written flate cwd zipPath files zopts w0 ! i)])
            (w_disk w2) = Some bytes \<and>
          (locate cwd (f_Name (zip_written flate cwd zipPath files zopts w0 ! i)) \<noteq> locate cwd zipPath \<longrightarrow>
             ReadFile cwd (f_Name (zip_written flate cwd zipPath files zopts w0 ! i)) (w_disk w0) =
               Some bytes)))"
proof -
  let ?fs = "zip_written flate cwd zipPath files zopts w0"
  let ?od = "if OutputDir uopts = [] then ''.'' else OutputDir uopts"
  from Zip_written[OF zip] obtain d1 where d1: "WriteFile cwd zipPath 438 [] (w_disk w0) = Some d1"
    and rd: "ReadFile cwd zipPath (w_disk w1) = Some (enc ?fs)"
    and fd: "\<forall>f \<in> set ?fs. from_disk cwd d1 f"
    and nm: "map f_Name ?fs = map ToSlash (concat (map (source_names cwd d1 zopts) files))"
    by auto
  have zd: "zip_disk cwd zipPath w0 = d1" by (simp add: zip_disk_def d1)
  from rd codec have "OpenReader dec cwd zipPath (w_disk w1) = Some ?fs"
    by (simp add: OpenReader_def)
  with unzip have loop: "unzip_loop cwd uopts ?od (Abs cwd ?od) ?fs w1 = (None, w2)"
    by (simp add: Unzip_def Let_def)
  have ns: "\<not> entry_skipped uopts f" for f by (simp add: entry_skipped_def nofilter)
  have dest: "entry_dest uopts ?od f = Join [?od, f_Name f]" for f
    by (simp add: entry_dest_def nojunk)
  have "\<exists>bytes.
          ReadFile cwd (f_Name (?fs ! i)) d1 = Some bytes \<and>
          ReadFile cwd (Join [?od, f_Name (?fs ! i)]) (w_disk w2) = Some bytes \<and>
          (locate cwd (f_Name (?fs ! i)) \<noteq> locate cwd zipPath \<longrightarrow>
             ReadFile cwd (f_Name (?fs ! i)) (w_disk w0) = Some bytes)"
    if i: "i < length ?fs"
      and last: "\<forall>j. i < j \<and> j < length ?fs \<longrightarrow>
          locate cwd (Join [?od, f_Name (?fs ! j)]) \<noteq> locate cwd (Join [?od, f_Name (?fs ! i)])"
    for i
  proof -
    from fd i have f: "from_disk cwd d1 (?fs ! i)" by simp
    then obtain bytes where nd: "\<not> f_IsDir (?fs ! i)" and b: "f_Payload (?fs ! i) = Content bytes"
      and src: "ReadFile cwd (f_Name (?fs ! i)) d1 = Some bytes"
      by (auto simp: from_disk_def)
    have "\<forall>j. i < j \<and> j < length ?fs \<longrightarrow>
      entry_skipped uopts (?fs ! j) \<or> f_IsDir (?fs ! j) \<or>
      locate cwd (entry_dest uopts ?od (?fs ! j)) \<noteq> locate cwd (entry_dest uopts ?od (?fs ! i))"
      using last by (simp add: dest)
    from unzip_loop_content[OF loop i ns nd this] b
    have out: "ReadFile cwd (Join [?od, f_Name (?fs ! i)]) (w_disk w2) = Some bytes"
      by (simp add: dest)
    have orig: "ReadFile cwd (f_Name (?fs ! i)) (w_disk w0) = Some bytes"
      if ne: "locate cwd (f_Name (?fs ! i)) \<noteq> locate cwd zipPath"
    proof -
      from src obtain ls where ls: "locate cwd (f_Name (?fs ! i)) = Some ls"
        by (auto simp: ReadFile_def Stat_def split: option.splits)
      with ne have "locate cwd zipPath \<noteq> Some ls" by auto
      from WriteFile_keeps_other[OF d1 this] have "stat_at d1 ls = stat_at (w_disk w0) ls" .
      moreover from src ls obtain p t where "stat_at d1 ls = Some (AFile p t bytes)"
        by (auto simp: ReadFile_def Stat_def stat_at_File split: option.splits node.splits)
      ultimately have "lookup (w_disk w0) ls = Some (File p t bytes)"
        by (metis stat_at_File)
      then show ?thesis by (simp add: ReadFile_def Stat_def ls)
    qed
    from src out orig show ?thesis by blast
  qed
  with nm show ?thesis unfolding zd by blast
qed

theorem Zip_Unzip_roundtrip_witness:
  "map f_Name (zip_written demo_flate ''/src'' ''/tmp/a.zip'' [''hello.txt'', ''sub'']
       \<lparr>Recursive = True, CompressionLevel = 6, ExcludePatterns = []\<rparr> demo_world) =
     [''hello.txt'', ''sub/nested.txt''] \<and>
   ReadFile ''/src'' ''/tmp/out/sub/nested.txt''
     (w_disk (snd (Unzip
        (map_of [(demo_enc (zip_written demo_flate ''/src'' ''/tmp/a.zip'' [''hello.txt'', ''sub'']
                     \<lparr>Recursive = True, CompressionLevel = 6, ExcludePatterns = []\<rparr> demo_world),
                  zip_written demo_flate ''/src'' ''/tmp/a.zip'' [''hello.txt'', ''sub'']
                     \<lparr>Recursive = True, CompressionLevel = 6, ExcludePatterns = []\<rparr> demo_world)])
        ''/src'' ''/tmp/a.zip''
        \<lparr>OutputDir = ''/tmp/out'', Overwrite = True, JunkPaths = False, FilePatterns = []\<rparr>
        (snd (Zip demo_enc demo_flate ''/src'' ''/tmp/a.zip'' [''hello.txt'', ''sub'']
           \<lparr>Recursive = True, CompressionLevel = 6, ExcludePatterns = []\<rparr> demo_world))))) =
     Some ''nested content''"
proof -
  let ?zo = "\<lparr>Recursive = True, CompressionLevel = 6, ExcludePatterns = []\<rparr>"
  let ?uo = "\<lparr>OutputDir = ''/tmp/out'', Overwrite = True, JunkPaths = False, FilePatterns = []\<rparr>"
  let ?fs = "zip_written demo_flate ''/src'' ''/tmp/a.zip'' [''hello.txt'', ''sub''] ?zo demo_world"
  let ?dec = "map_of [(demo_enc ?fs, ?fs)]"
  let ?z = "Zip demo_enc demo_flate ''/src'' ''/tmp/a.zip'' [''hello.txt'', ''sub''] ?zo demo_world"
  let ?u = "Unzip ?dec ''/src'' ''/tmp/a.zip'' ?uo (snd ?z)"
  have "fst ?z = None" by code_simp
  then have z: "?z = (None, snd ?z)" by (metis prod.collapse)
  have c: "?dec (demo_enc ?fs) = Some ?fs" by simp
  have "fst ?u = None" by code_simp
  then have u: "?u = (None, snd ?u)" by (metis prod.collapse)
  have len: "length ?fs = 2" by code_simp
  have n1: "f_Name (?fs ! 1) = ''sub/nested.txt''" by code_simp
  have src: "ReadFile ''/src'' ''sub/nested.txt'' (zip_disk ''/src'' ''/tmp/a.zip'' demo_world) = Some ''nested content''"
    by code_simp
  have j: "Join [''/tmp/out'', ''sub/nested.txt''] = ''/tmp/out/sub/nested.txt''" by code_simp
  have sn: "map ToSlash (concat (map (source_names ''/src'' (zip_disk ''/src'' ''/tmp/a.zip'' demo_world) ?zo)
               [''hello.txt'', ''sub''])) = [''hello.txt'', ''sub/nested.txt'']" by code_simp
  have nf: "FilePatterns ?uo = []" and nj: "\<not> JunkPaths ?uo" by simp_all
  note T = Zip_Unzip_roundtrip[OF z c u nf nj]
  from T sn have names: "map f_Name ?fs = [''hello.txt'', ''sub/nested.txt'']" by simp
  have i: "(1::nat) < length ?fs" using len by simp
  have l: "\<forall>j. 1 < j \<and> j < length ?fs \<longrightarrow>
          locate ''/src'' (Join [if OutputDir ?uo = [] then ''.'' else OutputDir ?uo, f_Name (?fs ! j)]) \<noteq>
          locate ''/src'' (Join [if OutputDir ?uo = [] then ''.'' else OutputDir ?uo, f_Name (?fs ! 1)])"
    unfolding len by auto
  from T[THEN conjunct2, THEN spec, of 1, THEN mp, OF i, THEN mp, OF l] have "\<exists>bytes.
          ReadFile ''/src'' (f_Name (?fs ! 1)) (zip_disk ''/src'' ''/tmp/a.zip'' demo_world) = Some bytes \<and>
          ReadFile ''/src'' (Join [''/tmp/out'', f_Name (?fs ! 1)]) (w_disk (snd ?u)) = Some bytes"
    by auto
  with n1 src j have "ReadFile ''/src'' ''/tmp/out/sub/nested.txt'' (w_disk (snd ?u)) = Some ''nested content''"
    by auto
  with names show ?thesis by simp
qed

theorem Zip_Unzip_roundtrip_counterexample:
  "fst (Zip demo_enc demo_flate ''/src/sub'' ''/tmp/a.zip'' [''../hello.txt'']
          \<lparr>Recursive = True, CompressionLevel = 6, ExcludePatterns = []\<rparr> demo_world) = None \<and>
   map f_Name (zip_written demo_flate ''/src/sub'' ''/tmp/a.zip'' [''../hello.txt'']
          \<lparr>Recursive = True, CompressionLevel = 6, ExcludePatterns = []\<rparr> demo_world) = [''../hello.txt''] \<and>
   ReadFile ''/src/sub'' ''../hello.txt'' (w_disk demo_world) = Some ''hello world'' \<and>
   Unzip
     (map_of [(demo_enc (zip_written demo_flate ''/src/sub'' ''/tmp/a.zip'' [''../hello.txt'']
                  \<lparr>Recursive = True, CompressionLevel = 6, ExcludePatterns = []\<rparr> demo_world),
               zip_written demo_flate ''/src/sub'' ''/tmp/a.zip'' [''../hello.txt'']
                  \<lparr>Recursive = True, CompressionLevel = 6, ExcludePatterns = []\<rparr> demo_world)])
     ''/src/sub'' ''/tmp/a.zip''
     \<lparr>OutputDir = ''/tmp/out'', Overwrite = True, JunkPaths = False, FilePatterns = []\<rparr>
     (snd (Zip demo_enc demo_flate ''/src/sub'' ''/tmp/a.zip'' [''../hello.txt'']
          \<lparr>Recursive = True, CompressionLevel = 6, ExcludePatterns = []\<rparr> demo_world)) =
   (Some (ErrIllegalFilePath ''../hello.txt''),
    snd (Zip demo_enc demo_flate ''/src/sub'' ''/tmp/a.zip'' [''../hello.txt'']
          \<lparr>Recursive = True, CompressionLevel = 6, ExcludePatterns = []\<rparr> demo_world)) \<and>
   Stat ''/src/sub'' ''/tmp/out''
     (w_disk (snd (Zip demo_enc demo_flate ''/src/sub'' ''/tmp/a.zip'' [''../hello.txt'']
          \<lparr>Recursive = True, CompressionLevel = 6, ExcludePatterns = []\<rparr> demo_world))) = None"
  by code_simp

end
